theory Spec2Isabelle
  imports Main "HOL-Library.Word"
begin

unbundle bit_operations_syntax

section \<open>The encrypted-link downloader (utils/mega.py)\<close>

subsection \<open>Bytes, 32-bit words and exceptions\<close>

type_synonym byte = "8 word"
type_synonym bytes = "byte list"
type_synonym a32 = "32 word list"

text \<open>
  The exceptions the module raises itself (\<open>ValidationError\<close>, \<open>NetworkError\<close>) and
  the built-in ones that escape from it.
\<close>

datatype error =
    ValidationError
  | NetworkError
  | UnboundLocalError
  | ValueError
  | TypeError
  | AttributeError
  | OverflowError
  | Base64Error

text \<open>Python's slice \<open>xs[a:b]\<close> for \<open>0 \<le> a \<le> b\<close>: it never raises, it truncates.\<close>

definition slice :: "nat \<Rightarrow> nat \<Rightarrow> 'a list \<Rightarrow> 'a list" where
  "slice a b xs = take (b - a) (drop a xs)"

text \<open>\<open>int.from_bytes(b, "big")\<close> on at most four bytes, and \<open>x.to_bytes(4, "big")\<close>.\<close>

definition from_bytes_big :: "bytes \<Rightarrow> 32 word" where
  "from_bytes_big b = foldl (\<lambda>acc x. push_bit 8 acc OR ucast x) 0 b"

definition to_bytes4_big :: "32 word \<Rightarrow> bytes" where
  "to_bytes4_big x = [ucast (drop_bit 24 x), ucast (drop_bit 16 x), ucast (drop_bit 8 x), ucast x]"

fun group4 :: "bytes \<Rightarrow> bytes list" where
  "group4 [] = []"
| "group4 (x # xs) = take 4 (x # xs) # group4 (drop 3 xs)"

definition bytes_to_a32 :: "bytes \<Rightarrow> a32" where
  "bytes_to_a32 b =
     (let b' = (if length b mod 4 \<noteq> 0 then b @ replicate (4 - length b mod 4) 0 else b)
      in map from_bytes_big (group4 b'))"

definition a32_to_bytes :: "a32 \<Rightarrow> bytes" where
  "a32_to_bytes a = concat (map to_bytes4_big a)"

definition xor_a32 :: "a32 \<Rightarrow> a32 \<Rightarrow> a32" where
  "xor_a32 a b = map (\<lambda>(x, y). x XOR y) (zip a b)"

subsection \<open>Key derivation\<close>

text \<open>
  \<open>_derive_key_iv_from_k\<close>. The first branch returns. The second branch only binds
  \<open>key\<close>; the two statements after it are outside the \<open>if\<close>, so they run for every
  length other than 4, and \<open>return key, iv\<close> reads a local that was never bound when
  the length is below 8: Python raises \<open>UnboundLocalError\<close> there. The final
  \<open>raise ValidationError\<close> follows a \<open>return\<close> and is never reached.
\<close>

definition derive_key_iv_from_k :: "a32 \<Rightarrow> error + bytes \<times> bytes" where
  "derive_key_iv_from_k k_a32 =
     (if length k_a32 = 4 then Inr (a32_to_bytes k_a32, replicate 8 0)
      else
        (let key = (if 8 \<le> length k_a32
                    then Some (a32_to_bytes (xor_a32 (slice 0 4 k_a32) (slice 4 8 k_a32)))
                    else None);
             iv = a32_to_bytes (slice 4 6 k_a32)
         in case key of
              None \<Rightarrow> Inl UnboundLocalError
            | Some key' \<Rightarrow> Inr (key', iv)))"

subsection \<open>JSON values and Python's view of them\<close>

text \<open>
  What \<open>json.loads\<close> and \<open>Response.json\<close> hand to the module. An object is the
  dictionary already built (keys distinct, looked up with \<open>map_of\<close>). Numbers are
  the integers; a listing's ids, parents, keys and attribute blobs are strings and its
  type tags integers, and numbers with a fraction do not occur in what follows.
\<close>

datatype json =
    JNull
  | JBool bool
  | JInt int
  | JStr string
  | JArr "json list"
  | JObj "(string \<times> json) list"

type_synonym dict = "(string \<times> json) list"

text \<open>\<open>d.get(k)\<close>: \<open>None\<close> for a missing key.\<close>

definition dict_get :: "dict \<Rightarrow> string \<Rightarrow> json" where
  "dict_get d k = (case map_of d k of None \<Rightarrow> JNull | Some v \<Rightarrow> v)"

text \<open>Truth value of an object in a condition.\<close>

fun truthy :: "json \<Rightarrow> bool" where
  "truthy JNull = False"
| "truthy (JBool b) = b"
| "truthy (JInt i) = (i \<noteq> 0)"
| "truthy (JStr s) = (s \<noteq> [])"
| "truthy (JArr xs) = (xs \<noteq> [])"
| "truthy (JObj kvs) = (kvs \<noteq> [])"

text \<open>\<open>v == k\<close> for an integer literal \<open>k\<close>: \<open>True == 1\<close> and \<open>False == 0\<close> hold in Python.\<close>

fun py_eq_int :: "json \<Rightarrow> int \<Rightarrow> bool" where
  "py_eq_int (JInt i) k = (i = k)"
| "py_eq_int (JBool b) k = ((if b then 1 else 0) = k)"
| "py_eq_int _ k = False"

text \<open>
  Dictionary keys: lists and objects are unhashable (\<open>TypeError\<close>), and a Boolean key
  is the same key as the integer it equals.
\<close>

fun hashable :: "json \<Rightarrow> bool" where
  "hashable (JArr xs) = False"
| "hashable (JObj kvs) = False"
| "hashable _ = True"

fun key_norm :: "json \<Rightarrow> json" where
  "key_norm (JBool b) = JInt (if b then 1 else 0)"
| "key_norm v = v"

subsection \<open>The libraries the module calls\<close>

text \<open>
  The module calls \<open>base64.b64decode\<close>, the AES block cipher of \<open>Crypto.Cipher\<close>,
  \<open>json.loads\<close> on UTF-8 text, \<open>str\<close> and \<open>int\<close>. They are not part of the
  repository, so every function below takes them as the parameter \<open>L\<close>: the base64
  decoder with the exception it raises, the block cipher as a key-indexed function on
  128-bit blocks, the decoder-and-parser with \<open>None\<close> for any exception, the text
  \<open>str\<close> gives for a value that is not a string, and \<open>int\<close> of a string.
\<close>

record lib =
  b64decode :: "string \<Rightarrow> error + bytes"
  aes_encrypt_block :: "bytes \<Rightarrow> 128 word \<Rightarrow> 128 word"
  aes_decrypt_block :: "bytes \<Rightarrow> 128 word \<Rightarrow> 128 word"
  json_loads_utf8 :: "bytes \<Rightarrow> json option"
  py_repr :: "json \<Rightarrow> string"
  int_of_string :: "string \<Rightarrow> int option"

definition py_str :: "lib \<Rightarrow> json \<Rightarrow> string" where
  "py_str L v = (case v of JStr s \<Rightarrow> s | _ \<Rightarrow> py_repr L v)"

definition py_int :: "lib \<Rightarrow> json \<Rightarrow> error + int" where
  "py_int L v =
     (case v of
        JInt i \<Rightarrow> Inr i
      | JBool b \<Rightarrow> Inr (if b then 1 else 0)
      | JStr s \<Rightarrow> (case int_of_string L s of None \<Rightarrow> Inl ValueError | Some i \<Rightarrow> Inr i)
      | _ \<Rightarrow> Inl TypeError)"

subsection \<open>Base64 of MEGA\<close>

definition mega_b64_decode :: "lib \<Rightarrow> string \<Rightarrow> error + bytes" where
  "mega_b64_decode L s =
     (let s1 = map (\<lambda>c. if c = CHR ''-'' then CHR ''+'' else c) s;
          s2 = map (\<lambda>c. if c = CHR ''_'' then CHR ''/'' else c) s1;
          pad = (4 - length s2 mod 4) mod 4
      in b64decode L (s2 @ replicate pad CHR ''=''))"

subsection \<open>AES modes over the block cipher\<close>

text \<open>
  \<open>AES.new\<close> refuses a key that is not 16, 24 or 32 bytes long, and the ECB and CBC
  objects refuse data whose length is not a multiple of the block size, each with
  \<open>ValueError\<close>. A block is read and written big-endian.
\<close>

definition block_of_bytes :: "bytes \<Rightarrow> 128 word" where
  "block_of_bytes b = foldl (\<lambda>acc x. push_bit 8 acc OR ucast x) 0 b"

definition bytes_of_block :: "128 word \<Rightarrow> bytes" where
  "bytes_of_block w = map (\<lambda>i. ucast (drop_bit (8 * (15 - i)) w)) [0..<16]"

definition xor_bytes :: "bytes \<Rightarrow> bytes \<Rightarrow> bytes" where
  "xor_bytes a b = map (\<lambda>(x, y). x XOR y) (zip a b)"

definition aes_key_ok :: "bytes \<Rightarrow> bool" where
  "aes_key_ok key = (length key = 16 \<or> length key = 24 \<or> length key = 32)"

fun blocks16 :: "bytes \<Rightarrow> bytes list" where
  "blocks16 [] = []"
| "blocks16 (x # xs) = take 16 (x # xs) # blocks16 (drop 15 xs)"

definition aes_ecb_decrypt :: "lib \<Rightarrow> bytes \<Rightarrow> bytes \<Rightarrow> error + bytes" where
  "aes_ecb_decrypt L key data =
     (if \<not> aes_key_ok key then Inl ValueError
      else if length data mod 16 \<noteq> 0 then Inl ValueError
      else Inr (concat (map (\<lambda>c. bytes_of_block (aes_decrypt_block L key (block_of_bytes c)))
                         (blocks16 data))))"

fun cbc_chain :: "lib \<Rightarrow> bytes \<Rightarrow> bytes \<Rightarrow> bytes list \<Rightarrow> bytes" where
  "cbc_chain L key prev [] = []"
| "cbc_chain L key prev (c # cs) =
     xor_bytes (bytes_of_block (aes_decrypt_block L key (block_of_bytes c))) prev
       @ cbc_chain L key c cs"

definition aes_cbc_decrypt :: "lib \<Rightarrow> bytes \<Rightarrow> bytes \<Rightarrow> bytes \<Rightarrow> error + bytes" where
  "aes_cbc_decrypt L key iv data =
     (if \<not> aes_key_ok key \<or> length iv \<noteq> 16 then Inl ValueError
      else if length data mod 16 \<noteq> 0 then Inl ValueError
      else Inr (cbc_chain L key iv (blocks16 data)))"

subsection \<open>Attribute decryption\<close>

definition MEGA_marker :: bytes where
  "MEGA_marker = [0x4D, 0x45, 0x47, 0x41]"

text \<open>\<open>dec.rstrip(b"\0")\<close>.\<close>

definition rstrip0 :: "bytes \<Rightarrow> bytes" where
  "rstrip0 b = rev (dropWhile (\<lambda>x. x = 0) (rev b))"

text \<open>
  \<open>_decrypt_attrs\<close>. Only the parse is inside \<open>try\<close>; the base64 decoding and the
  CBC decryption are before it.
\<close>

definition decrypt_attrs :: "lib \<Rightarrow> string \<Rightarrow> bytes \<Rightarrow> error + json" where
  "decrypt_attrs L attr_b64 key_bytes =
     (case mega_b64_decode L attr_b64 of
        Inl e \<Rightarrow> Inl e
      | Inr data \<Rightarrow>
          (case aes_cbc_decrypt L key_bytes (replicate 16 0) data of
             Inl e \<Rightarrow> Inl e
           | Inr dec \<Rightarrow>
               if take 4 dec \<noteq> MEGA_marker then Inr (JObj [])
               else (case json_loads_utf8 L (rstrip0 (drop 4 dec)) of
                       None \<Rightarrow> Inr (JObj [])
                     | Some v \<Rightarrow> Inr v)))"

subsection \<open>Counter mode\<close>

text \<open>
  \<open>AES.new(key, AES.MODE_CTR, nonce=iv8, initial_value=0)\<close>: the counter block is the
  nonce followed by the block number, big-endian, in the remaining bytes. The object
  keeps the number of bytes it has processed; \<open>decrypt\<close> XORs the data with the key
  stream from that position on, and raises \<open>OverflowError\<close> once the counter would
  wrap around.
\<close>

record ctr_cipher =
  ctr_key :: bytes
  ctr_nonce :: bytes
  ctr_pos :: nat

definition to_bytes_big :: "nat \<Rightarrow> nat \<Rightarrow> bytes" where
  "to_bytes_big n v = map (\<lambda>i. of_nat (v div 256 ^ (n - 1 - i))) [0..<n]"

definition ctr_new :: "bytes \<Rightarrow> bytes \<Rightarrow> error + ctr_cipher" where
  "ctr_new key nonce =
     (if \<not> aes_key_ok key \<or> 16 \<le> length nonce then Inl ValueError
      else Inr \<lparr> ctr_key = key, ctr_nonce = nonce, ctr_pos = 0 \<rparr>)"

definition ctr_keystream_byte :: "lib \<Rightarrow> ctr_cipher \<Rightarrow> nat \<Rightarrow> byte" where
  "ctr_keystream_byte L c i =
     bytes_of_block
       (aes_encrypt_block L (ctr_key c)
          (block_of_bytes (ctr_nonce c @ to_bytes_big (16 - length (ctr_nonce c)) (i div 16))))
       ! (i mod 16)"

definition ctr_limit :: "ctr_cipher \<Rightarrow> nat" where
  "ctr_limit c = 16 * 256 ^ (16 - length (ctr_nonce c))"

definition ctr_xor :: "lib \<Rightarrow> ctr_cipher \<Rightarrow> nat \<Rightarrow> bytes \<Rightarrow> bytes" where
  "ctr_xor L c p data = map (\<lambda>j. data ! j XOR ctr_keystream_byte L c (p + j)) [0..<length data]"

definition ctr_decrypt :: "lib \<Rightarrow> ctr_cipher \<Rightarrow> bytes \<Rightarrow> error + bytes \<times> ctr_cipher" where
  "ctr_decrypt L c data =
     (if ctr_limit c < ctr_pos c + length data then Inl OverflowError
      else Inr (ctr_xor L c (ctr_pos c) data, c\<lparr>ctr_pos := ctr_pos c + length data\<rparr>))"

subsection \<open>Progress events\<close>

text \<open>
  What \<open>_emit\<close> is called with. The percentage, the speed and the remaining time are
  floating-point values computed from the wall clock and are left out; a callback that
  raises is swallowed by \<open>_emit\<close>, so emitting never fails.
\<close>

datatype stage = Starting | Downloading | Done

record event =
  ev_stage :: stage
  ev_filename :: string
  ev_total :: int
  ev_downloaded :: int

subsection \<open>Single-file download\<close>

text \<open>
  What the network gives \<open>download_file\<close>: the first element of the metadata answer
  (or the exception \<open>_api_call\<close> raised), and the body of the media request as the
  chunks \<open>iter_content\<close> yields, followed, when \<open>body_ok\<close> is false, by a
  \<open>requests.RequestException\<close> (a refused connection or an error status is the case of
  no chunks).
\<close>

record http_body =
  body_chunks :: "bytes list"
  body_ok :: bool

text \<open>\<open>k in resp\<close> for a string \<open>k\<close>.\<close>

definition is_substring :: "string \<Rightarrow> string \<Rightarrow> bool" where
  "is_substring k s = list_ex (\<lambda>n. take (length k) (drop n s) = k) [0..<Suc (length s)]"

fun py_contains :: "string \<Rightarrow> json \<Rightarrow> error + bool" where
  "py_contains k (JObj d) = Inr (map_of d k \<noteq> None)"
| "py_contains k (JStr s) = Inr (is_substring k s)"
| "py_contains k (JArr xs) = Inr (JStr k \<in> set xs)"
| "py_contains k _ = Inl TypeError"

text \<open>Lines 250--253: the direct link and the size (\<open>fsize\<close> stands for the local \<open>size\<close>).\<close>

definition direct_link :: "lib \<Rightarrow> json \<Rightarrow> error + dict \<times> int" where
  "direct_link L resp =
     (case py_contains ''g'' resp of
        Inl e \<Rightarrow> Inl e
      | Inr has_g \<Rightarrow>
          if \<not> has_g then Inl ValidationError
          else (case py_contains ''s'' resp of
                  Inl e \<Rightarrow> Inl e
                | Inr has_s \<Rightarrow>
                    if \<not> has_s then Inl ValidationError
                    else (case resp of
                            JObj d \<Rightarrow>
                              (case py_int L (dict_get d ''s'') of
                                 Inl e \<Rightarrow> Inl e
                               | Inr fsize \<Rightarrow> Inr (d, fsize))
                          | _ \<Rightarrow> Inl TypeError)))"

text \<open>Lines 256--259: the file name from the attributes, \<open>"file"\<close> otherwise.\<close>

definition file_name :: "lib \<Rightarrow> dict \<Rightarrow> bytes \<Rightarrow> error + string" where
  "file_name L resp key_bytes =
     (if map_of resp ''at'' = None then Inr ''file''
      else (case decrypt_attrs L (py_str L (dict_get resp ''at'')) key_bytes of
              Inl e \<Rightarrow> Inl e
            | Inr attrs \<Rightarrow>
                (case attrs of
                   JObj ad \<Rightarrow>
                     (let v = dict_get ad ''n''
                      in Inr (if truthy v then py_str L v else ''file''))
                 | _ \<Rightarrow> Inl AttributeError)))"

text \<open>
  Lines 285--304: the loop over the chunks. The state is the cipher, the bytes written
  to the file, the running count and the events emitted so far; the second component
  of the result is the exception that ended the loop, if one did.
\<close>

record transfer =
  tr_events :: "event list"
  tr_written :: bytes
  tr_cipher :: ctr_cipher
  tr_downloaded :: int

fun stream_chunks :: "lib \<Rightarrow> string \<Rightarrow> int \<Rightarrow> bytes list \<Rightarrow> transfer \<Rightarrow> transfer \<times> error option" where
  "stream_chunks L name fsize [] t = (t, None)"
| "stream_chunks L name fsize (chunk # rest) t =
     (if chunk = [] then stream_chunks L name fsize rest t
      else (case ctr_decrypt L (tr_cipher t) chunk of
              Inl e \<Rightarrow> (t, Some e)
            | Inr (dec, c') \<Rightarrow>
                stream_chunks L name fsize rest
                  \<lparr> tr_events = tr_events t @
                       [\<lparr> ev_stage = Downloading, ev_filename = name, ev_total = fsize,
                          ev_downloaded = tr_downloaded t + int (length dec) \<rparr>],
                    tr_written = tr_written t @ dec,
                    tr_cipher = c',
                    tr_downloaded = tr_downloaded t + int (length dec) \<rparr>))"

text \<open>
  \<open>download_file\<close> from the parsed link on (\<open>file_id\<close> goes into the metadata
  request, whose answer is \<open>api\<close>). A run is the events emitted, the bytes written and
  how the call ended: the name of the file under the destination directory, or the
  exception.
\<close>

record file_run =
  run_events :: "event list"
  run_written :: bytes
  run_result :: "error + string"

definition download_file :: "lib \<Rightarrow> string \<Rightarrow> a32 \<Rightarrow> error + json \<Rightarrow> http_body \<Rightarrow> file_run" where
  "download_file L file_id k_a32 api body =
     (case derive_key_iv_from_k k_a32 of
        Inl e \<Rightarrow> \<lparr> run_events = [], run_written = [], run_result = Inl e \<rparr>
      | Inr (key_bytes, iv8) \<Rightarrow>
     (case api of
        Inl e \<Rightarrow> \<lparr> run_events = [], run_written = [], run_result = Inl e \<rparr>
      | Inr resp \<Rightarrow>
     (case direct_link L resp of
        Inl e \<Rightarrow> \<lparr> run_events = [], run_written = [], run_result = Inl e \<rparr>
      | Inr (d, fsize) \<Rightarrow>
     (case file_name L d key_bytes of
        Inl e \<Rightarrow> \<lparr> run_events = [], run_written = [], run_result = Inl e \<rparr>
      | Inr name \<Rightarrow>
     (let starting = \<lparr> ev_stage = Starting, ev_filename = name, ev_total = fsize,
                       ev_downloaded = 0 \<rparr>
      in case ctr_new key_bytes iv8 of
        Inl e \<Rightarrow> \<lparr> run_events = [starting], run_written = [], run_result = Inl e \<rparr>
      | Inr cipher \<Rightarrow>
     (case stream_chunks L name fsize (body_chunks body)
             \<lparr> tr_events = [starting], tr_written = [], tr_cipher = cipher,
               tr_downloaded = 0 \<rparr> of
        (t, Some e) \<Rightarrow>
          \<lparr> run_events = tr_events t, run_written = tr_written t, run_result = Inl e \<rparr>
      | (t, None) \<Rightarrow>
          if \<not> body_ok body then
            \<lparr> run_events = tr_events t, run_written = tr_written t,
              run_result = Inl NetworkError \<rparr>
          else
            \<lparr> run_events = tr_events t @
                 [\<lparr> ev_stage = Done, ev_filename = name, ev_total = fsize,
                    ev_downloaded = fsize \<rparr>],
              run_written = tr_written t,
              run_result = Inr name \<rparr>))))))"

definition done_count :: "event list \<Rightarrow> nat" where
  "done_count evs = length (filter (\<lambda>e. ev_stage e = Done) evs)"

subsection \<open>Paths\<close>

text \<open>
  A \<open>pathlib\<close> path is modelled by its \<open>parts\<close>. \<open>Path(*args)\<close> on a POSIX
  system: an argument that starts with a slash discards what came before it and
  leaves the root (\<open>//\<close> for exactly two slashes) as the first part; each argument
  is cut at the slashes, and empty segments and \<open>.\<close> are dropped.
\<close>

type_synonym path = "string list"

fun split_on :: "char \<Rightarrow> string \<Rightarrow> string list" where
  "split_on c [] = [[]]"
| "split_on c (x # xs) =
     (if x = c then [] # split_on c xs
      else (case split_on c xs of [] \<Rightarrow> [[x]] | w # ws \<Rightarrow> (x # w) # ws))"

definition anchor_of :: "string \<Rightarrow> string option" where
  "anchor_of s =
     (let n = length (takeWhile (\<lambda>c. c = CHR ''/'') s)
      in if n = 0 then None else if n = 2 then Some ''//'' else Some ''/'')"

definition segments :: "string \<Rightarrow> string list" where
  "segments s = filter (\<lambda>x. x \<noteq> [] \<and> x \<noteq> ''.'') (split_on CHR ''/'' s)"

fun pure_parts_from :: "path \<Rightarrow> string list \<Rightarrow> path" where
  "pure_parts_from acc [] = acc"
| "pure_parts_from acc (a # as) =
     (case anchor_of a of
        Some r \<Rightarrow> pure_parts_from (r # segments a) as
      | None \<Rightarrow> pure_parts_from (acc @ segments a) as)"

definition pure_parts :: "string list \<Rightarrow> path" where
  "pure_parts args = pure_parts_from [] args"

subsection \<open>Folder listing: index, node keys and names\<close>

datatype 'a outcome = Returns 'a | Raises error | Diverges

type_synonym node_index = "json \<Rightarrow> dict option"
type_synonym names = "string \<Rightarrow> string option"

text \<open>
  Lines 350--354: \<open>by_h\<close>. Every dictionary of the listing is stored under its
  \<open>h\<close>, whatever that is (\<open>None\<close> when absent); an unhashable one raises.
\<close>

fun index_nodes :: "json list \<Rightarrow> node_index \<Rightarrow> error + node_index" where
  "index_nodes [] by_h = Inr by_h"
| "index_nodes (JObj n # ns) by_h =
     (if hashable (dict_get n ''h'')
      then index_nodes ns (by_h(key_norm (dict_get n ''h'') \<mapsto> n))
      else Inl TypeError)"
| "index_nodes (_ # ns) by_h = index_nodes ns by_h"

text \<open>
  \<open>node_key_bytes\<close>, the closure over the shared key. Every exception inside the
  \<open>try\<close> gives \<open>None\<close>.
\<close>

definition node_key_bytes :: "lib \<Rightarrow> bytes \<Rightarrow> dict \<Rightarrow> bytes option" where
  "node_key_bytes L shared_key_bytes n =
     (case dict_get n ''k'' of
        JStr k \<Rightarrow>
          (case mega_b64_decode L (last (split_on CHR '':'' k)) of
             Inl e \<Rightarrow> None
           | Inr enc \<Rightarrow>
               (case aes_ecb_decrypt L shared_key_bytes enc of
                  Inl e \<Rightarrow> None
                | Inr dec \<Rightarrow>
                    if length dec = 32
                    then Some (xor_bytes (slice 0 16 dec) (slice 16 32 dec))
                    else Some (slice 0 16 dec)))
      | _ \<Rightarrow> None)"

text \<open>\<open>if kb\<close> for the closure's result: neither \<open>None\<close> nor empty.\<close>

definition usable_key :: "bytes option \<Rightarrow> bool" where
  "usable_key kb = (case kb of None \<Rightarrow> False | Some b \<Rightarrow> b \<noteq> [])"

text \<open>
  Lines 371--383: \<open>names\<close>. The functions of the folder listing take the closure
  \<open>node_key_bytes\<close> as the parameter \<open>nkb\<close>; \<open>download_folder\<close> below passes the
  real one.
\<close>

definition name_step :: "lib \<Rightarrow> (dict \<Rightarrow> bytes option) \<Rightarrow> json \<Rightarrow> names \<Rightarrow> error + names" where
  "name_step L nkb n names =
     (case n of
        JObj d \<Rightarrow>
          (case dict_get d ''h'' of
             JStr h \<Rightarrow>
               (case (nkb d, dict_get d ''a'') of
                  (Some kb, JStr a) \<Rightarrow>
                    if kb = [] then Inr names
                    else (case decrypt_attrs L a kb of
                            Inl e \<Rightarrow> Inl e
                          | Inr attrs \<Rightarrow>
                              (case (case attrs of JObj ad \<Rightarrow> dict_get ad ''n'' | _ \<Rightarrow> JNull) of
                                 JStr nm \<Rightarrow> if nm \<noteq> [] then Inr (names(h \<mapsto> nm)) else Inr names
                               | _ \<Rightarrow> Inr names))
                | _ \<Rightarrow> Inr names)
           | _ \<Rightarrow> Inr names)
      | _ \<Rightarrow> Inr names)"

fun name_nodes :: "lib \<Rightarrow> (dict \<Rightarrow> bytes option) \<Rightarrow> json list \<Rightarrow> names \<Rightarrow> error + names" where
  "name_nodes L nkb [] names = Inr names"
| "name_nodes L nkb (n # ns) names =
     (case name_step L nkb n names of
        Inl e \<Rightarrow> Inl e
      | Inr names' \<Rightarrow> name_nodes L nkb ns names')"

subsection \<open>Folder listing: paths\<close>

text \<open>What the nested functions close over.\<close>

record listing =
  by_h :: node_index
  node_names :: names
  target_subfolder :: "string option"

text \<open>\<open>names.get(hid, "")\<close> for any \<open>hid\<close>: the keys of \<open>names\<close> are strings.\<close>

definition names_get :: "names \<Rightarrow> json \<Rightarrow> string" where
  "names_get nms hid =
     (case hid of
        JStr h \<Rightarrow> (case nms h of None \<Rightarrow> [] | Some nm \<Rightarrow> nm)
      | _ \<Rightarrow> [])"

text \<open>\<open>target_subfolder and hid == target_subfolder\<close>.\<close>

definition is_target :: "string option \<Rightarrow> json \<Rightarrow> bool" where
  "is_target tgt hid = (case tgt of None \<Rightarrow> False | Some t \<Rightarrow> t \<noteq> [] \<and> hid = JStr t)"

text \<open>
  The \<open>while\<close> loop of \<open>full_path\<close>. Nothing bounds it: on a listing whose parent
  pointers form a cycle it never ends, which is the value \<open>None\<close> here. The test
  \<open>cur.get("p") in by_h\<close> raises \<open>TypeError\<close> for an unhashable parent.
\<close>

partial_function (option) full_path_loop ::
  "listing \<Rightarrow> dict option \<Rightarrow> string list \<Rightarrow> (error + string list) option" where
  "full_path_loop C cur parts =
     (case cur of
        None \<Rightarrow> Some (Inr parts)
      | Some c \<Rightarrow>
          if c = [] then Some (Inr parts)
          else if \<not> hashable (dict_get c ''p'') then Some (Inl TypeError)
          else (case by_h C (key_norm (dict_get c ''p'')) of
                  None \<Rightarrow> Some (Inr parts)
                | Some c' \<Rightarrow>
                    if c' \<noteq> [] \<and> py_eq_int (dict_get c' ''t'') 1 then
                      (let hid = dict_get c' ''h'';
                           nm = names_get (node_names C) hid;
                           parts' = (if nm \<noteq> [] then parts @ [nm] else parts)
                       in if is_target (target_subfolder C) hid then Some (Inr parts')
                          else full_path_loop C (Some c') parts')
                    else full_path_loop C (Some c') parts))"

definition full_path :: "listing \<Rightarrow> string \<Rightarrow> (error + path) option" where
  "full_path C h =
     (case full_path_loop C (by_h C (JStr h)) [] of
        None \<Rightarrow> None
      | Some (Inl e) \<Rightarrow> Some (Inl e)
      | Some (Inr parts) \<Rightarrow> Some (Inr (pure_parts (rev parts))))"

text \<open>\<open>target_subfolder and target_subfolder in by_h\<close>.\<close>

definition target_listed :: "listing \<Rightarrow> bool" where
  "target_listed C =
     (case target_subfolder C of
        None \<Rightarrow> False
      | Some t \<Rightarrow> t \<noteq> [] \<and> by_h C (JStr t) \<noteq> None)"

text \<open>Lines 434--443: the name and the relative path of the file node \<open>h\<close>.\<close>

definition node_name :: "names \<Rightarrow> string \<Rightarrow> string" where
  "node_name nms h = (case nms h of None \<Rightarrow> h | Some nm \<Rightarrow> nm)"

definition rel_path :: "listing \<Rightarrow> string \<Rightarrow> (error + path) option" where
  "rel_path C h =
     (case full_path C h of
        None \<Rightarrow> None
      | Some (Inl e) \<Rightarrow> Some (Inl e)
      | Some (Inr fp) \<Rightarrow>
          (let rel = pure_parts (fp @ [node_name (node_names C) h])
           in if target_listed C \<and> rel \<noteq> [] then
                (let target_name = (case target_subfolder C of
                                      None \<Rightarrow> []
                                    | Some t \<Rightarrow> names_get (node_names C) (JStr t))
                 in if target_name \<noteq> [] \<and> target_name \<in> set rel
                    then Some (Inr (pure_parts (dropWhile (\<lambda>x. x \<noteq> target_name) rel)))
                    else Some (Inr rel))
              else Some (Inr rel)))"

subsection \<open>Folder listing: the descendants of the target subfolder\<close>

text \<open>
  Lines 402--405: \<open>children_map\<close>, a dictionary from a parent id to the ids of its
  children in listing order (\<open>setdefault(p, []).append(h)\<close>).
\<close>

type_synonym children = "(string \<times> string list) list"

fun cm_append :: "string \<Rightarrow> string \<Rightarrow> children \<Rightarrow> children" where
  "cm_append p h [] = [(p, [h])]"
| "cm_append p h ((k, v) # rest) =
     (if k = p then (k, v @ [h]) # rest else (k, v) # cm_append p h rest)"

definition cm_get :: "children \<Rightarrow> string \<Rightarrow> string list" where
  "cm_get cm k = (case map_of cm k of None \<Rightarrow> [] | Some v \<Rightarrow> v)"

fun children_map_from :: "children \<Rightarrow> json list \<Rightarrow> children" where
  "children_map_from cm [] = cm"
| "children_map_from cm (n # ns) =
     (case n of
        JObj d \<Rightarrow>
          (case (dict_get d ''h'', dict_get d ''p'') of
             (JStr h, JStr p) \<Rightarrow> children_map_from (cm_append p h cm) ns
           | _ \<Rightarrow> children_map_from cm ns)
      | _ \<Rightarrow> children_map_from cm ns)"

definition children_map :: "json list \<Rightarrow> children" where
  "children_map nodes = children_map_from [] nodes"

definition cm_ids :: "children \<Rightarrow> string set" where
  "cm_ids cm = (\<Union>(k, v) \<in> set cm. set v)"

text \<open>
  Lines 406--414: the walk. The stack is the Python list, top at the end:
  \<open>pop()\<close> takes the last element and \<open>append\<close> adds behind it.
\<close>

function descend :: "children \<Rightarrow> string list \<Rightarrow> string set \<Rightarrow> string set" where
  "descend cm stack allowed =
     (if stack = [] then allowed
      else (let cur = last stack; stack' = butlast stack
            in if cur \<in> allowed then descend cm stack' allowed
               else descend cm (stack' @ cm_get cm cur) (insert cur allowed)))"
  by pat_completeness auto

lemma cm_get_ids: "set (cm_get cm k) \<subseteq> cm_ids cm"
proof (cases "map_of cm k")
  case None
  then show ?thesis by (simp add: cm_get_def)
next
  case (Some v)
  then have "(k, v) \<in> set cm" by (rule map_of_SomeD)
  then have "set v \<subseteq> cm_ids cm" by (force simp: cm_ids_def)
  with Some show ?thesis by (simp add: cm_get_def)
qed

lemma finite_cm_ids: "finite (cm_ids cm)"
  by (auto simp: cm_ids_def)

text \<open>
  The walk ends on every listing: a step either marks an id that was not yet in
  \<open>allowed\<close>, of the finitely many ids on the stack or in the map, or shortens the
  stack.
\<close>

termination descend
proof (relation "measures [\<lambda>(cm, stack, allowed). card ((cm_ids cm \<union> set stack) - allowed),
                            \<lambda>(cm, stack, allowed). length stack]")
  show "wf (measures [\<lambda>(cm, stack, allowed). card ((cm_ids cm \<union> set stack) - allowed),
                            \<lambda>(cm, stack, allowed). length stack])"
    by simp
next
  fix cm :: children and stack :: "string list" and allowed :: "string set" and x xa
  assume ne: "stack \<noteq> []" and x: "x = last stack" and xa: "xa = butlast stack"
    and "x \<in> allowed"
  have "set (butlast stack) \<subseteq> set stack" by (meson in_set_butlastD subsetI)
  then have "(cm_ids cm \<union> set (butlast stack)) - allowed \<subseteq> (cm_ids cm \<union> set stack) - allowed"
    by auto
  then have "card ((cm_ids cm \<union> set (butlast stack)) - allowed)
      \<le> card ((cm_ids cm \<union> set stack) - allowed)"
    by (intro card_mono) (auto simp: finite_cm_ids)
  moreover from ne have "length (butlast stack) < length stack" by simp
  ultimately show "((cm, xa, allowed), cm, stack, allowed)
      \<in> measures [\<lambda>(cm, stack, allowed). card ((cm_ids cm \<union> set stack) - allowed),
                            \<lambda>(cm, stack, allowed). length stack]"
    using xa by auto
next
  fix cm :: children and stack :: "string list" and allowed :: "string set" and x xa
  assume ne: "stack \<noteq> []" and x: "x = last stack" and xa: "xa = butlast stack"
    and nin: "x \<notin> allowed"
  have "set (butlast stack) \<subseteq> set stack" by (meson in_set_butlastD subsetI)
  moreover from ne x have "x \<in> set stack" by simp
  ultimately have "(cm_ids cm \<union> set (xa @ cm_get cm x)) - insert x allowed
      \<subset> (cm_ids cm \<union> set stack) - allowed"
    using cm_get_ids [of cm x] nin xa by auto
  then have "card ((cm_ids cm \<union> set (xa @ cm_get cm x)) - insert x allowed)
      < card ((cm_ids cm \<union> set stack) - allowed)"
    by (intro psubset_card_mono) (auto simp: finite_cm_ids)
  then show "((cm, xa @ cm_get cm x, insert x allowed), cm, stack, allowed)
      \<in> measures [\<lambda>(cm, stack, allowed). card ((cm_ids cm \<union> set stack) - allowed),
                            \<lambda>(cm, stack, allowed). length stack]"
    by simp
qed

declare descend.simps [simp del]

definition allowed_set :: "listing \<Rightarrow> json list \<Rightarrow> string set option" where
  "allowed_set C nodes =
     (case target_subfolder C of
        None \<Rightarrow> None
      | Some t \<Rightarrow>
          if t \<noteq> [] \<and> by_h C (JStr t) \<noteq> None
          then Some (descend (children_map nodes) [t] {})
          else None)"

text \<open>
  The edges the walk follows, read off the listing: from a parent id to the id of
  each node that names it, both strings.
\<close>

definition parent_edges :: "json list \<Rightarrow> (string \<times> string) set" where
  "parent_edges nodes =
     {(p, h). \<exists>d. JObj d \<in> set nodes \<and> dict_get d ''h'' = JStr h \<and> dict_get d ''p'' = JStr p}"

subsection \<open>Folder listing: the download loop\<close>

text \<open>
  Lines 446--488 talk to the network for one file: the metadata request, the media
  request and the decrypting loop, the same code as in \<open>download_file\<close>. For the
  listing only the way they end matters: no link or size in the answer
  (\<open>continue\<close>), an exception, or the file stored.
\<close>

datatype fetch_outcome = NoLink | Failed error | Stored

datatype step = Skip | Keep path | Abort error | Hang

text \<open>Lines 422--445 for one node, up to the network.\<close>

definition download_step ::
  "(dict \<Rightarrow> bytes option) \<Rightarrow> listing \<Rightarrow> string set option \<Rightarrow> (string \<Rightarrow> fetch_outcome) \<Rightarrow> json \<Rightarrow> step" where
  "download_step nkb C allowed fetch n =
     (case n of
        JObj d \<Rightarrow>
          if \<not> py_eq_int (dict_get d ''t'') 0 then Skip
          else (case dict_get d ''h'' of
                  JStr h \<Rightarrow>
                    if (case allowed of None \<Rightarrow> False | Some A \<Rightarrow> h \<notin> A) then Skip
                    else (case nkb d of
                            None \<Rightarrow> Skip
                          | Some kb \<Rightarrow>
                              if kb = [] then Skip
                              else (case derive_key_iv_from_k (bytes_to_a32 kb) of
                                      Inl e \<Rightarrow> Abort e
                                    | Inr (key_bytes, iv8) \<Rightarrow>
                                        (case rel_path C h of
                                           None \<Rightarrow> Hang
                                         | Some (Inl e) \<Rightarrow> Abort e
                                         | Some (Inr rel) \<Rightarrow>
                                             (case fetch h of
                                                NoLink \<Rightarrow> Skip
                                              | Failed e \<Rightarrow> Abort e
                                              | Stored \<Rightarrow> Keep rel))))
                | _ \<Rightarrow> Skip)
      | _ \<Rightarrow> Skip)"

text \<open>The loop: \<open>results\<close> collects the relative path of every file stored.\<close>

fun download_nodes ::
  "(dict \<Rightarrow> bytes option) \<Rightarrow> listing \<Rightarrow> string set option \<Rightarrow> (string \<Rightarrow> fetch_outcome) \<Rightarrow>
     json list \<Rightarrow> path list \<Rightarrow> path list outcome" where
  "download_nodes nkb C allowed fetch [] results = Returns results"
| "download_nodes nkb C allowed fetch (n # ns) results =
     (case download_step nkb C allowed fetch n of
        Skip \<Rightarrow> download_nodes nkb C allowed fetch ns results
      | Keep rel \<Rightarrow> download_nodes nkb C allowed fetch ns (results @ [rel])
      | Abort e \<Rightarrow> Raises e
      | Hang \<Rightarrow> Diverges)"

text \<open>
  \<open>download_folder\<close> from the listing on: the shared key and the target subfolder
  come from the link, \<open>nodes\<close> is the list under \<open>"f"\<close> of the answer.
\<close>

definition download_folder ::
  "lib \<Rightarrow> bytes \<Rightarrow> string option \<Rightarrow> json list \<Rightarrow> (string \<Rightarrow> fetch_outcome) \<Rightarrow> path list outcome" where
  "download_folder L shared_key_bytes tgt nodes fetch =
     (case index_nodes nodes Map.empty of
        Inl e \<Rightarrow> Raises e
      | Inr bh \<Rightarrow>
          (case name_nodes L (node_key_bytes L shared_key_bytes) nodes Map.empty of
             Inl e \<Rightarrow> Raises e
           | Inr nms \<Rightarrow>
               (let C = \<lparr> by_h = bh, node_names = nms, target_subfolder = tgt \<rparr>
                in download_nodes (node_key_bytes L shared_key_bytes) C (allowed_set C nodes)
                     fetch nodes [])))"


subsection \<open>Synthetic listings\<close>

text \<open>
  Nodes as the listing gives them, reduced to the id, the parent id (absent for a
  root) and the type tag, and the forest of the path examples:
  \<open>r\<close> (folder) \<open>\<rightarrow>\<close> \<open>a\<close> (folder) \<open>\<rightarrow>\<close> \<open>b\<close> (folder) \<open>\<rightarrow>\<close> \<open>f\<close> (file), with
  \<open>names\<close> holding a decrypted name for each of the four.
\<close>

definition folder_node :: "string \<Rightarrow> string option \<Rightarrow> json" where
  "folder_node h p =
     JObj ((''h'', JStr h) # (case p of None \<Rightarrow> [] | Some q \<Rightarrow> [(''p'', JStr q)]) @ [(''t'', JInt 1)])"

definition file_node :: "string \<Rightarrow> string \<Rightarrow> json" where
  "file_node h p = JObj [(''h'', JStr h), (''p'', JStr p), (''t'', JInt 0)]"

definition forest :: "string \<Rightarrow> string \<Rightarrow> string \<Rightarrow> string \<Rightarrow> json list" where
  "forest r a b f =
     [folder_node r None, folder_node a (Some r), folder_node b (Some a), file_node f b]"

definition forest_names ::
  "string \<Rightarrow> string \<Rightarrow> string \<Rightarrow> string \<Rightarrow> string \<Rightarrow> string \<Rightarrow> string \<Rightarrow> string \<Rightarrow> names" where
  "forest_names r a b f nr na nb nf = [r \<mapsto> nr, a \<mapsto> na, b \<mapsto> nb, f \<mapsto> nf]"

definition forest_index :: "string \<Rightarrow> string \<Rightarrow> string \<Rightarrow> string \<Rightarrow> node_index" where
  "forest_index r a b f =
     [JStr r \<mapsto> [(''h'', JStr r), (''t'', JInt 1)],
      JStr a \<mapsto> [(''h'', JStr a), (''p'', JStr r), (''t'', JInt 1)],
      JStr b \<mapsto> [(''h'', JStr b), (''p'', JStr a), (''t'', JInt 1)],
      JStr f \<mapsto> [(''h'', JStr f), (''p'', JStr b), (''t'', JInt 0)]]"

text \<open>A name that is one path segment: not empty, not \<open>.\<close>, no slash.\<close>

definition plain_segment :: "string \<Rightarrow> bool" where
  "plain_segment s = (s \<noteq> [] \<and> s \<noteq> ''.'' \<and> CHR ''/'' \<notin> set s)"

text \<open>
  The relative path \<open>download_folder\<close> computes for the file node \<open>h\<close> of a
  listing, given the names: the index of lines 350--354, then lines 434--443.
\<close>

definition resolve :: "names \<Rightarrow> string option \<Rightarrow> json list \<Rightarrow> string \<Rightarrow> path outcome" where
  "resolve nms tgt nodes h =
     (case index_nodes nodes Map.empty of
        Inl e \<Rightarrow> Raises e
      | Inr bh \<Rightarrow>
          (case rel_path \<lparr> by_h = bh, node_names = nms, target_subfolder = tgt \<rparr> h of
             None \<Rightarrow> Diverges
           | Some (Inl e) \<Rightarrow> Raises e
           | Some (Inr rel) \<Rightarrow> Returns rel))"

text \<open>
  The files \<open>download_folder\<close> stores for a listing, given the names and the node
  keys: the index, the descendants of the target and the download loop.
\<close>

definition select_files ::
  "(dict \<Rightarrow> bytes option) \<Rightarrow> names \<Rightarrow> string option \<Rightarrow> (string \<Rightarrow> fetch_outcome) \<Rightarrow>
     json list \<Rightarrow> path list outcome" where
  "select_files nkb nms tgt fetch nodes =
     (case index_nodes nodes Map.empty of
        Inl e \<Rightarrow> Raises e
      | Inr bh \<Rightarrow>
          (let C = \<lparr> by_h = bh, node_names = nms, target_subfolder = tgt \<rparr>
           in download_nodes nkb C (allowed_set C nodes) fetch nodes []))"

subsection \<open>A small instance of the libraries\<close>

text \<open>
  To run the functions on concrete inputs the parameter needs a value. \<open>toy_lib\<close> has
  the standard base64 decoding of canonically padded text (anything else is refused,
  which is where it is stricter than \<open>base64.b64decode\<close>), XOR with the first 16 key
  bytes for the block cipher, and a parser that rejects every text.
\<close>

definition b64_index :: "char \<Rightarrow> nat option" where
  "b64_index c =
     (let n = (of_char c :: nat) in
      if 65 \<le> n \<and> n \<le> 90 then Some (n - 65)
      else if 97 \<le> n \<and> n \<le> 122 then Some (n - 71)
      else if 48 \<le> n \<and> n \<le> 57 then Some (n + 4)
      else if c = CHR ''+'' then Some 62
      else if c = CHR ''/'' then Some 63
      else None)"

definition b64_quad :: "char \<Rightarrow> char \<Rightarrow> char \<Rightarrow> char \<Rightarrow> bytes option" where
  "b64_quad a b c d =
     (case (b64_index a, b64_index b, b64_index c, b64_index d) of
        (Some i, Some j, Some k, Some l) \<Rightarrow>
          (let v = ((i * 64 + j) * 64 + k) * 64 + l
           in Some [of_nat (v div 65536), of_nat (v div 256), of_nat v])
      | _ \<Rightarrow> None)"

fun b64_strict :: "string \<Rightarrow> error + bytes" where
  "b64_strict [] = Inr []"
| "b64_strict [a, b, c, d] =
     (if c = CHR ''='' \<and> d = CHR ''='' then
        (case b64_quad a b CHR ''A'' CHR ''A'' of
           None \<Rightarrow> Inl Base64Error | Some bs \<Rightarrow> Inr (take 1 bs))
      else if d = CHR ''='' then
        (case b64_quad a b c CHR ''A'' of
           None \<Rightarrow> Inl Base64Error | Some bs \<Rightarrow> Inr (take 2 bs))
      else (case b64_quad a b c d of None \<Rightarrow> Inl Base64Error | Some bs \<Rightarrow> Inr bs))"
| "b64_strict (a # b # c # d # rest) =
     (case b64_quad a b c d of
        None \<Rightarrow> Inl Base64Error
      | Some bs \<Rightarrow> (case b64_strict rest of Inl e \<Rightarrow> Inl e | Inr bs' \<Rightarrow> Inr (bs @ bs')))"
| "b64_strict _ = Inl Base64Error"

definition toy_block :: "bytes \<Rightarrow> 128 word \<Rightarrow> 128 word" where
  "toy_block key w = w XOR block_of_bytes (take 16 key)"

definition toy_lib :: lib where
  "toy_lib =
     \<lparr> b64decode = b64_strict,
       aes_encrypt_block = toy_block,
       aes_decrypt_block = toy_block,
       json_loads_utf8 = (\<lambda>b. None),
       py_repr = (\<lambda>v. ''?''),
       int_of_string = (\<lambda>s. None) \<rparr>"

text \<open>
  The end of \<open>download_file\<close> after the loop, as a function of what the loop
  returned (used to state facts about every run at once).
\<close>

definition finish :: "string \<Rightarrow> int \<Rightarrow> bool \<Rightarrow> transfer \<times> error option \<Rightarrow> file_run" where
  "finish name fsize ok r = (case r of
        (t, Some e) \<Rightarrow>
          \<lparr> run_events = tr_events t, run_written = tr_written t, run_result = Inl e \<rparr>
      | (t, None) \<Rightarrow>
          if \<not> ok then
            \<lparr> run_events = tr_events t, run_written = tr_written t,
              run_result = Inl NetworkError \<rparr>
          else
            \<lparr> run_events = tr_events t @
                 [\<lparr> ev_stage = Done, ev_filename = name, ev_total = fsize,
                    ev_downloaded = fsize \<rparr>],
              run_written = tr_written t,
              run_result = Inr name \<rparr>)"


text \<open>A metadata answer with a link, a size of three bytes and no attributes.\<close>

definition demo_answer :: "error + json" where
  "demo_answer = Inr (JObj [(''g'', JStr ''https://host/dl''), (''s'', JInt 3)])"

section \<open>Properties\<close>


lemma list_of_length4:
  assumes "length k = 4"
  shows "k = [k ! 0, k ! 1, k ! 2, k ! 3]"
proof -
  from assms obtain a b c d where "k = [a, b, c, d]"
    by (auto simp: numeral_eq_Suc length_Suc_conv)
  then show ?thesis by simp
qed


text \<open>
  C1. For a word count that is neither 4 nor at least 8, the claim asks for a
  validation error; the function as written raises \<open>UnboundLocalError\<close> instead
  (evaluated here on five words).
\<close>

theorem derive_key_iv_five_words:
  "derive_key_iv_from_k [1, 2, 3, 4, 5] = Inl UnboundLocalError"
  by (simp add: derive_key_iv_from_k_def slice_def)



lemma replicate_two: "replicate 2 x = [x, x]"
  by (simp add: numeral_2_eq_2)

lemma aes_cbc_decrypt_total:
  "aes_key_ok key \<Longrightarrow> length iv = 16 \<Longrightarrow> length data mod 16 = 0 \<Longrightarrow>
     \<exists>dec. aes_cbc_decrypt L key iv data = Inr dec"
  by (simp add: aes_cbc_decrypt_def)

text \<open>
  C5. Attribute decryption is meant never to raise: it degrades to the empty mapping
  on a missing marker and on a parse failure, and the sibling closure
  \<open>node_key_bytes\<close> guards the same two calls (the base64 decoding and the cipher)
  with \<open>try\<close>. Here they are left outside the \<open>try\<close>: on a blob that decodes to
  three bytes the \<open>ValueError\<close> of the CBC decryption leaves the function.
\<close>

theorem decrypt_attrs_raises:
  "decrypt_attrs toy_lib ''AAAA'' (replicate 16 0) = Inl ValueError"
proof -
  have "mega_b64_decode toy_lib ''AAAA'' = Inr [0, 0, 0]"
    by (simp add: mega_b64_decode_def toy_lib_def b64_quad_def b64_index_def)
  then show ?thesis
    by (simp add: decrypt_attrs_def aes_cbc_decrypt_def aes_key_ok_def)
qed

text \<open>
  Where the function does degrade: with a 16-byte key and a blob that decodes to a
  whole number of blocks it returns, the empty mapping when the plaintext does not
  start with the marker and the empty mapping when the trimmed remainder does not
  parse.
\<close>

lemma decrypt_attrs_degrades:
  assumes key: "length key = 16"
    and dec: "mega_b64_decode L attr_b64 = Inr data"
    and len: "length data mod 16 = 0"
  shows "\<exists>dec. aes_cbc_decrypt L key (replicate 16 0) data = Inr dec
           \<and> (take 4 dec \<noteq> MEGA_marker \<longrightarrow> decrypt_attrs L attr_b64 key = Inr (JObj []))
           \<and> (take 4 dec = MEGA_marker \<and> json_loads_utf8 L (rstrip0 (drop 4 dec)) = None
                \<longrightarrow> decrypt_attrs L attr_b64 key = Inr (JObj []))
           \<and> (\<exists>v. decrypt_attrs L attr_b64 key = Inr v)"
proof -
  from key have "aes_key_ok key" by (simp add: aes_key_ok_def)
  with len obtain d where d: "aes_cbc_decrypt L key (replicate 16 0) data = Inr d"
    using aes_cbc_decrypt_total [of key "replicate 16 0" data L] by auto
  show ?thesis
    using d dec by (auto simp: decrypt_attrs_def split: option.splits)
qed

lemma decrypt_attrs_degrades_example:
  "decrypt_attrs toy_lib ''TUVHQQAAAAAAAAAAAAAAAA'' (replicate 16 0) = Inr (JObj [])
   \<and> decrypt_attrs toy_lib ''AAAAAAAAAAAAAAAAAAAAAA'' (replicate 16 0) = Inr (JObj [])"
proof -
  let ?m = "[0x4D, 0x45, 0x47, 0x41, 0, 0, 0, 0, 0, 0, 0, 0, 0, 0, 0, 0] :: bytes"
  let ?z = "[0, 0, 0, 0, 0, 0, 0, 0, 0, 0, 0, 0, 0, 0, 0, 0] :: bytes"
  have z: "replicate 16 0 = ?z" by code_simp
  have d1: "mega_b64_decode toy_lib ''TUVHQQAAAAAAAAAAAAAAAA'' = Inr ?m"
    by (simp add: mega_b64_decode_def toy_lib_def b64_quad_def b64_index_def replicate_two)
  have d2: "mega_b64_decode toy_lib ''AAAAAAAAAAAAAAAAAAAAAA'' = Inr ?z"
    by (simp add: mega_b64_decode_def toy_lib_def b64_quad_def b64_index_def replicate_two)
  have c1: "aes_cbc_decrypt toy_lib ?z ?z ?m = Inr ?m"
    by code_simp
  have c2: "aes_cbc_decrypt toy_lib ?z ?z ?z = Inr ?z"
    by code_simp
  have m1: "take 4 ?m = MEGA_marker" by (simp add: MEGA_marker_def)
  have m2: "take 4 ?z \<noteq> MEGA_marker" by (simp add: MEGA_marker_def)
  have j: "json_loads_utf8 toy_lib (rstrip0 (drop 4 ?m)) = None" by (simp add: toy_lib_def)
  have a: "decrypt_attrs toy_lib ''TUVHQQAAAAAAAAAAAAAAAA'' ?z = Inr (JObj [])"
    using decrypt_attrs_degrades [of ?z toy_lib "''TUVHQQAAAAAAAAAAAAAAAA''" ?m, OF _ d1]
      c1 m1 j unfolding z by simp
  have b: "decrypt_attrs toy_lib ''AAAAAAAAAAAAAAAAAAAAAA'' ?z = Inr (JObj [])"
    using decrypt_attrs_degrades [of ?z toy_lib "''AAAAAAAAAAAAAAAAAAAAAA''" ?z, OF _ d2]
      c2 m2 unfolding z by simp
  from a b show ?thesis unfolding z by simp
qed

subsection \<open>The streaming download\<close>

lemma ctr_xor_pos [simp]: "ctr_xor L (c\<lparr>ctr_pos := q\<rparr>) p data = ctr_xor L c p data"
  by (simp add: ctr_xor_def ctr_keystream_byte_def)

lemma ctr_limit_pos [simp]: "ctr_limit (c\<lparr>ctr_pos := q\<rparr>) = ctr_limit c"
  by (simp add: ctr_limit_def)

lemma ctr_xor_append:
  "ctr_xor L c p (a @ b) = ctr_xor L c p a @ ctr_xor L c (p + length a) b"
proof (rule nth_equalityI)
  show "length (ctr_xor L c p (a @ b)) = length (ctr_xor L c p a @ ctr_xor L c (p + length a) b)"
    by (simp add: ctr_xor_def)
next
  fix i
  assume "i < length (ctr_xor L c p (a @ b))"
  then have i: "i < length a + length b" by (simp add: ctr_xor_def)
  show "ctr_xor L c p (a @ b) ! i = (ctr_xor L c p a @ ctr_xor L c (p + length a) b) ! i"
  proof (cases "i < length a")
    case True
    then show ?thesis using i by (simp add: ctr_xor_def nth_append)
  next
    case False
    then have "p + length a + (i - length a) = p + i" by simp
    then show ?thesis using i False by (simp add: ctr_xor_def nth_append)
  qed
qed

lemma length_ctr_xor [simp]: "length (ctr_xor L c p data) = length data"
  by (simp add: ctr_xor_def)

lemma done_count_append [simp]: "done_count (xs @ ys) = done_count xs + done_count ys"
  by (simp add: done_count_def)

lemma stream_chunks_done_count:
  "done_count (tr_events (fst (stream_chunks L name fsize cs t))) = done_count (tr_events t)"
  by (induction cs arbitrary: t) (auto simp: done_count_def split: sum.splits)

lemma stream_chunks_within_limit:
  assumes "ctr_pos (tr_cipher t) + length (concat cs) \<le> ctr_limit (tr_cipher t)"
  shows "snd (stream_chunks L name fsize cs t) = None
         \<and> tr_written (fst (stream_chunks L name fsize cs t)) =
             tr_written t @ ctr_xor L (tr_cipher t) (ctr_pos (tr_cipher t)) (concat cs)"
  using assms
proof (induction cs arbitrary: t)
  case Nil
  then show ?case by (simp add: ctr_xor_def)
next
  case (Cons chunk rest)
  show ?case
  proof (cases "chunk = []")
    case True
    with Cons show ?thesis by simp
  next
    case False
    let ?c = "tr_cipher t"
    from Cons.prems have fits: "\<not> ctr_limit ?c < ctr_pos ?c + length chunk" by simp
    let ?t' = "\<lparr> tr_events = tr_events t @
                       [\<lparr> ev_stage = Downloading, ev_filename = name, ev_total = fsize,
                          ev_downloaded = tr_downloaded t + int (length chunk) \<rparr>],
                    tr_written = tr_written t @ ctr_xor L ?c (ctr_pos ?c) chunk,
                    tr_cipher = ?c\<lparr>ctr_pos := ctr_pos ?c + length chunk\<rparr>,
                    tr_downloaded = tr_downloaded t + int (length chunk) \<rparr>"
    have step: "stream_chunks L name fsize (chunk # rest) t = stream_chunks L name fsize rest ?t'"
      using False fits by (simp add: ctr_decrypt_def)
    have "ctr_pos (tr_cipher ?t') + length (concat rest) \<le> ctr_limit (tr_cipher ?t')"
      using Cons.prems by (simp add: add.assoc)
    from Cons.IH [OF this] show ?thesis
      unfolding step by (simp add: ctr_xor_append)
  qed
qed

lemma download_file_cases:
  "(\<exists>evs e. done_count evs = 0 \<and> (\<forall>body. download_file L file_id k_a32 api body =
        \<lparr> run_events = evs, run_written = [], run_result = Inl e \<rparr>))
   \<or> (\<exists>name fsize t0. done_count (tr_events t0) = 0 \<and> ctr_pos (tr_cipher t0) = 0 \<and> tr_written t0 = [] \<and>
        (\<forall>body. download_file L file_id k_a32 api body =
           finish name fsize (body_ok body) (stream_chunks L name fsize (body_chunks body) t0)))"
proof (cases "derive_key_iv_from_k k_a32")
  case (Inl e)
  then show ?thesis by (auto simp: download_file_def done_count_def)
next
  case (Inr kv)
  obtain key_bytes iv8 where kv: "kv = (key_bytes, iv8)" by (cases kv)
  show ?thesis
  proof (cases api)
    case (Inl e)
    with Inr kv show ?thesis by (auto simp: download_file_def done_count_def)
  next
    case resp: (Inr resp)
    show ?thesis
    proof (cases "direct_link L resp")
      case (Inl e)
      with Inr kv resp show ?thesis by (auto simp: download_file_def done_count_def)
    next
      case dl: (Inr ds)
      obtain d fsize where ds: "ds = (d, fsize)" by (cases ds)
      show ?thesis
      proof (cases "file_name L d key_bytes")
        case (Inl e)
        with Inr kv resp dl ds show ?thesis by (auto simp: download_file_def done_count_def)
      next
        case nm: (Inr name)
        show ?thesis
        proof (cases "ctr_new key_bytes iv8")
          case (Inl e)
          with Inr kv resp dl ds nm show ?thesis
            by (auto simp: download_file_def done_count_def)
        next
          case c: (Inr cipher)
          then have "ctr_pos cipher = 0"
            by (auto simp: ctr_new_def split: if_splits)
          with Inr kv resp dl ds nm c show ?thesis
            apply (intro disjI2)
            apply (rule exI [of _ name], rule exI [of _ fsize])
            apply (rule exI [of _ "\<lparr> tr_events = [\<lparr> ev_stage = Starting, ev_filename = name, ev_total = fsize,
                       ev_downloaded = 0 \<rparr>], tr_written = [], tr_cipher = cipher,
               tr_downloaded = 0 \<rparr>"])
            apply (simp add: download_file_def done_count_def finish_def)
            done
        qed
      qed
    qed
  qed
qed

lemma stream_chunks_beyond_limit:
  assumes "ctr_pos (tr_cipher t) \<le> ctr_limit (tr_cipher t)"
    and "ctr_limit (tr_cipher t) < ctr_pos (tr_cipher t) + length (concat cs)"
  shows "snd (stream_chunks L name fsize cs t) = Some OverflowError"
  using assms
proof (induction cs arbitrary: t)
  case Nil
  then show ?case by simp
next
  case (Cons chunk rest)
  show ?case
  proof (cases "ctr_limit (tr_cipher t) < ctr_pos (tr_cipher t) + length chunk")
    case True
    then have "chunk \<noteq> []" using Cons.prems by auto
    with True show ?thesis by (simp add: ctr_decrypt_def)
  next
    case False
    show ?thesis
    proof (cases "chunk = []")
      case True
      with Cons show ?thesis by simp
    next
      case ne: False
      from False Cons.prems show ?thesis
        using ne by (simp add: ctr_decrypt_def Cons.IH add.assoc)
    qed
  qed
qed

lemma stream_chunks_regroup:
  assumes "ctr_pos (tr_cipher t) \<le> ctr_limit (tr_cipher t)"
  shows "snd (stream_chunks L name fsize cs t) = snd (stream_chunks L name fsize [concat cs] t)
      \<and> (snd (stream_chunks L name fsize cs t) \<noteq> Some OverflowError \<longrightarrow>
           tr_written (fst (stream_chunks L name fsize cs t)) =
             tr_written (fst (stream_chunks L name fsize [concat cs] t)))"
proof (cases "ctr_pos (tr_cipher t) + length (concat cs) \<le> ctr_limit (tr_cipher t)")
  case True
  then have "ctr_pos (tr_cipher t) + length (concat [concat cs]) \<le> ctr_limit (tr_cipher t)"
    by simp
  from stream_chunks_within_limit [OF True] stream_chunks_within_limit [OF this]
  show ?thesis by simp
next
  case False
  then have a: "ctr_limit (tr_cipher t) < ctr_pos (tr_cipher t) + length (concat cs)" by simp
  then have b: "ctr_limit (tr_cipher t) < ctr_pos (tr_cipher t) + length (concat [concat cs])"
    by simp
  from stream_chunks_beyond_limit [OF assms a] stream_chunks_beyond_limit [OF assms b]
  show ?thesis by simp
qed

lemma stream_chunks_error:
  "snd (stream_chunks L name fsize cs t) = None
   \<or> snd (stream_chunks L name fsize cs t) = Some OverflowError"
  by (induction cs arbitrary: t) (auto simp: ctr_decrypt_def split: sum.splits)

text \<open>
  C2. The cipher is created once before the loop and fed the chunks in order, so how
  the body is cut into chunks does not matter: a run over any chunking ends as the
  run over the whole body as one chunk does, with the same bytes written (unless the
  counter overflows, which takes a body of more than \<open>16 * 256 ^ 8\<close> bytes and then
  ends both runs with \<open>OverflowError\<close>).
\<close>

theorem ctr_stream_chunking:
  "run_result (download_file L file_id k_a32 api \<lparr>body_chunks = cs, body_ok = ok\<rparr>) =
     run_result (download_file L file_id k_a32 api \<lparr>body_chunks = [concat cs], body_ok = ok\<rparr>)
   \<and> (run_result (download_file L file_id k_a32 api \<lparr>body_chunks = cs, body_ok = ok\<rparr>)
         \<noteq> Inl OverflowError \<longrightarrow>
       run_written (download_file L file_id k_a32 api \<lparr>body_chunks = cs, body_ok = ok\<rparr>) =
         run_written (download_file L file_id k_a32 api \<lparr>body_chunks = [concat cs], body_ok = ok\<rparr>))"
proof -
  from download_file_cases [of L file_id k_a32 api]
  show ?thesis
  proof
    assume "\<exists>evs e. done_count evs = 0 \<and> (\<forall>body. download_file L file_id k_a32 api body =
        \<lparr> run_events = evs, run_written = [], run_result = Inl e \<rparr>)"
    then show ?thesis by auto
  next
    assume "\<exists>name fsize t0. done_count (tr_events t0) = 0 \<and> ctr_pos (tr_cipher t0) = 0
        \<and> tr_written t0 = [] \<and>
        (\<forall>body. download_file L file_id k_a32 api body =
           finish name fsize (body_ok body) (stream_chunks L name fsize (body_chunks body) t0))"
    then obtain name fsize t0 where p0: "ctr_pos (tr_cipher t0) = 0"
      and df: "\<And>body. download_file L file_id k_a32 api body =
           finish name fsize (body_ok body) (stream_chunks L name fsize (body_chunks body) t0)"
      by blast
    from p0 have "ctr_pos (tr_cipher t0) \<le> ctr_limit (tr_cipher t0)" by simp
    from stream_chunks_regroup [OF this, of L name fsize cs]
    obtain t1 e1 t2 e2 where r1: "stream_chunks L name fsize cs t0 = (t1, e1)"
      and r2: "stream_chunks L name fsize [concat cs] t0 = (t2, e2)"
      and e: "e1 = e2" and w: "e1 \<noteq> Some OverflowError \<longrightarrow> tr_written t1 = tr_written t2"
      by (cases "stream_chunks L name fsize cs t0"; cases "stream_chunks L name fsize [concat cs] t0")
        auto
    from stream_chunks_error [of L name fsize cs t0] r1
    have "e1 = None \<or> e1 = Some OverflowError" by simp
    then show ?thesis
      using e w by (auto simp: df r1 r2 finish_def simp del: stream_chunks.simps)
  qed
qed

text \<open>
  C8. A single-file transfer that returns has emitted exactly one \<open>done\<close> event; one
  that ends in an exception (a network error at any point included) has emitted none.
\<close>

theorem done_event_once:
  "(\<forall>name. run_result (download_file L file_id k_a32 api body) = Inr name \<longrightarrow>
       done_count (run_events (download_file L file_id k_a32 api body)) = 1)
   \<and> (\<forall>e. run_result (download_file L file_id k_a32 api body) = Inl e \<longrightarrow>
       done_count (run_events (download_file L file_id k_a32 api body)) = 0)"
proof -
  from download_file_cases [of L file_id k_a32 api]
  show ?thesis
  proof
    assume "\<exists>evs e. done_count evs = 0 \<and> (\<forall>body. download_file L file_id k_a32 api body =
        \<lparr> run_events = evs, run_written = [], run_result = Inl e \<rparr>)"
    then show ?thesis by auto
  next
    assume "\<exists>name fsize t0. done_count (tr_events t0) = 0 \<and> ctr_pos (tr_cipher t0) = 0
        \<and> tr_written t0 = [] \<and>
        (\<forall>body. download_file L file_id k_a32 api body =
           finish name fsize (body_ok body) (stream_chunks L name fsize (body_chunks body) t0))"
    then obtain name fsize t0 where d0: "done_count (tr_events t0) = 0"
      and df: "\<And>body. download_file L file_id k_a32 api body =
           finish name fsize (body_ok body) (stream_chunks L name fsize (body_chunks body) t0)"
      by blast
    obtain t1 e1 where r1: "stream_chunks L name fsize (body_chunks body) t0 = (t1, e1)"
      by (cases "stream_chunks L name fsize (body_chunks body) t0")
    from stream_chunks_done_count [of L name fsize "body_chunks body" t0] r1 d0
    have "done_count (tr_events t1) = 0" by simp
    then show ?thesis
      by (auto simp: df r1 finish_def done_count_def split: option.splits)
  qed
qed

lemma z8: "replicate 8 (0::byte) = [0, 0, 0, 0, 0, 0, 0, 0]"
  by (simp add: numeral_eq_Suc)

lemma z16: "replicate 16 (0::byte) = [0, 0, 0, 0, 0, 0, 0, 0, 0, 0, 0, 0, 0, 0, 0, 0]"
  by (simp add: numeral_eq_Suc)

lemma derive_zero_key:
  "derive_key_iv_from_k [0, 0, 0, 0] = Inr (replicate 16 0, replicate 8 0)"
  by (simp add: derive_key_iv_from_k_def a32_to_bytes_def to_bytes4_big_def z16)

lemma direct_link_plain:
  "direct_link toy_lib (JObj [(''g'', JStr u), (''s'', JInt n)]) = Inr ([(''g'', JStr u), (''s'', JInt n)], n)"
  by (simp add: direct_link_def py_int_def dict_get_def)

lemma file_name_no_attrs:
  "file_name L [(''g'', JStr u), (''s'', JInt n)] k = Inr ''file''"
  by (simp add: file_name_def)

lemma foldl_zero_bytes:
  "foldl (\<lambda>acc x. push_bit 8 acc OR ucast x) (a::128 word) (replicate n (0::byte)) = push_bit (8 * n) a"
proof (induction n arbitrary: a)
  case 0
  then show ?case by simp
next
  case (Suc n)
  have "8 * n + 8 = 8 * Suc n" by simp
  with Suc show ?case by (simp add: push_bit_push_bit del: mult_Suc_right)
qed

lemma block_of_zeros: "block_of_bytes (replicate n 0) = 0"
  by (simp add: block_of_bytes_def foldl_zero_bytes)

lemma zero_keystream: "j < 16 \<Longrightarrow> ctr_keystream_byte toy_lib \<lparr>ctr_key = replicate 16 0, ctr_nonce = replicate 8 0, ctr_pos = p\<rparr> j = 0"
proof -
  assume j: "j < 16"
  have a: "to_bytes_big 8 0 = replicate 8 0"
    by (simp add: to_bytes_big_def map_replicate_const)
  have b: "replicate 8 (0::byte) @ replicate 8 0 = replicate 16 0"
    by (simp add: replicate_add [symmetric])
  have c: "bytes_of_block 0 = replicate 16 0"
    by (simp add: bytes_of_block_def map_replicate_const)
  show ?thesis using j
    by (simp add: ctr_keystream_byte_def toy_lib_def toy_block_def a b c block_of_zeros)
qed

lemma zero_ctr_decrypt:
  assumes "p + length data \<le> 16"
  shows "ctr_decrypt toy_lib \<lparr>ctr_key = replicate 16 0, ctr_nonce = replicate 8 0, ctr_pos = p\<rparr> data
         = Inr (data, \<lparr>ctr_key = replicate 16 0, ctr_nonce = replicate 8 0, ctr_pos = p + length data\<rparr>)"
proof -
  have "map (\<lambda>j. data ! j XOR ctr_keystream_byte toy_lib
            \<lparr>ctr_key = replicate 16 0, ctr_nonce = replicate 8 0, ctr_pos = p\<rparr> (p + j))
          [0..<length data] = map (\<lambda>j. data ! j) [0..<length data]"
    using assms by (intro map_cong refl) (simp add: zero_keystream)
  then have "ctr_xor toy_lib \<lparr>ctr_key = replicate 16 0, ctr_nonce = replicate 8 0, ctr_pos = p\<rparr> p data = data"
    by (simp add: ctr_xor_def map_nth)
  moreover have "\<not> ctr_limit \<lparr>ctr_key = replicate 16 0, ctr_nonce = replicate 8 0, ctr_pos = p\<rparr>
      < p + length data"
    using assms by (simp add: ctr_limit_def)
  ultimately show ?thesis by (simp add: ctr_decrypt_def)
qed

lemma zero_ctr_new:
  "ctr_new (replicate 16 0) (replicate 8 0)
     = Inr \<lparr>ctr_key = replicate 16 0, ctr_nonce = replicate 8 0, ctr_pos = 0\<rparr>"
  by (simp add: ctr_new_def aes_key_ok_def)

lemmas demo_run_simps =
  download_file_def demo_answer_def derive_zero_key direct_link_plain file_name_no_attrs
  zero_ctr_new zero_ctr_decrypt

theorem ctr_stream_chunking_witness:
  "run_written (download_file toy_lib ''abcdefgh'' [0, 0, 0, 0] demo_answer
      \<lparr>body_chunks = [[1, 2], [], [3]], body_ok = True\<rparr>) = [1, 2, 3]
   \<and> run_written (download_file toy_lib ''abcdefgh'' [0, 0, 0, 0] demo_answer
      \<lparr>body_chunks = [[1, 2, 3]], body_ok = True\<rparr>) = [1, 2, 3]"
proof -
  have r: "run_result (download_file toy_lib ''abcdefgh'' [0, 0, 0, 0] demo_answer
      \<lparr>body_chunks = [[1, 2], [], [3]], body_ok = True\<rparr>) = Inr ''file''"
    by (simp add: demo_run_simps)
  have w: "run_written (download_file toy_lib ''abcdefgh'' [0, 0, 0, 0] demo_answer
      \<lparr>body_chunks = [[1, 2], [], [3]], body_ok = True\<rparr>) = [1, 2, 3]"
    by (simp add: demo_run_simps)
  from ctr_stream_chunking [of toy_lib "''abcdefgh''" "[0, 0, 0, 0]" demo_answer
      "[[1, 2], [], [3]]" True] r w
  show ?thesis by simp
qed

theorem done_event_once_witness:
  "done_count (run_events (download_file toy_lib ''abcdefgh'' [0, 0, 0, 0] demo_answer
      \<lparr>body_chunks = [[1, 2], [3]], body_ok = True\<rparr>)) = 1
   \<and> done_count (run_events (download_file toy_lib ''abcdefgh'' [0, 0, 0, 0] demo_answer
      \<lparr>body_chunks = [[1, 2]], body_ok = False\<rparr>)) = 0"
proof -
  have r1: "run_result (download_file toy_lib ''abcdefgh'' [0, 0, 0, 0] demo_answer
      \<lparr>body_chunks = [[1, 2], [3]], body_ok = True\<rparr>) = Inr ''file''"
    by (simp add: demo_run_simps)
  have r2: "run_result (download_file toy_lib ''abcdefgh'' [0, 0, 0, 0] demo_answer
      \<lparr>body_chunks = [[1, 2]], body_ok = False\<rparr>) = Inl NetworkError"
    by (simp add: demo_run_simps)
  from done_event_once [of toy_lib "''abcdefgh''" "[0, 0, 0, 0]" demo_answer
      "\<lparr>body_chunks = [[1, 2], [3]], body_ok = True\<rparr>"]
    done_event_once [of toy_lib "''abcdefgh''" "[0, 0, 0, 0]" demo_answer
      "\<lparr>body_chunks = [[1, 2]], body_ok = False\<rparr>"] r1 r2
  show ?thesis by simp
qed

subsection \<open>The descendants of the target subfolder\<close>

lemma cm_get_append_list:
  "cm_get (cm_append p h cm) k = (if k = p then cm_get cm k @ [h] else cm_get cm k)"
  by (induction cm) (auto simp: cm_get_def)

lemma cm_get_append:
  "set (cm_get (cm_append p h cm) k) = set (cm_get cm k) \<union> (if k = p then {h} else {})"
  by (simp add: cm_get_append_list)

lemma children_map_from_edge:
  "dict_get d ''h'' = JStr h \<Longrightarrow> dict_get d ''p'' = JStr p \<Longrightarrow>
     children_map_from cm (JObj d # ns) = children_map_from (cm_append p h cm) ns"
  by simp

lemma children_map_from_skip:
  assumes "\<not> (\<exists>d h p. n = JObj d \<and> dict_get d ''h'' = JStr h \<and> dict_get d ''p'' = JStr p)"
  shows "children_map_from cm (n # ns) = children_map_from cm ns"
proof (cases n)
  case (JObj d)
  with assms have "\<not> (\<exists>h p. dict_get d ''h'' = JStr h \<and> dict_get d ''p'' = JStr p)"
    by simp
  then show ?thesis
    unfolding JObj
    by (cases "dict_get d ''h''"; cases "dict_get d ''p''") simp_all
qed simp_all

lemma parent_edges_Cons: "parent_edges (n # ns) = parent_edges [n] \<union> parent_edges ns"
  unfolding parent_edges_def by auto

lemma parent_edges_edge:
  "dict_get d ''h'' = JStr h \<Longrightarrow> dict_get d ''p'' = JStr p \<Longrightarrow>
     parent_edges [JObj d] = {(p, h)}"
  unfolding parent_edges_def by auto

lemma parent_edges_skip:
  "\<not> (\<exists>d h p. n = JObj d \<and> dict_get d ''h'' = JStr h \<and> dict_get d ''p'' = JStr p) \<Longrightarrow>
     parent_edges [n] = {}"
  unfolding parent_edges_def by auto

lemma children_map_from_edges:
  "set (cm_get (children_map_from cm ns) k) = set (cm_get cm k) \<union> {h. (k, h) \<in> parent_edges ns}"
proof (induction ns arbitrary: cm)
  case Nil
  then show ?case by (simp add: parent_edges_def)
next
  case (Cons n ns)
  show ?case
  proof (cases "\<exists>d h p. n = JObj d \<and> dict_get d ''h'' = JStr h \<and> dict_get d ''p'' = JStr p")
    case True
    then obtain d h p where n: "n = JObj d"
      and hp: "dict_get d ''h'' = JStr h" "dict_get d ''p'' = JStr p" by blast
    have "set (cm_get (children_map_from cm (n # ns)) k)
        = set (cm_get (cm_append p h cm) k) \<union> {h. (k, h) \<in> parent_edges ns}"
      unfolding n children_map_from_edge [OF hp] by (rule Cons.IH)
    also have "\<dots> = set (cm_get cm k) \<union> {h. (k, h) \<in> parent_edges (n # ns)}"
    proof -
      have "parent_edges (n # ns) = {(p, h)} \<union> parent_edges ns"
        using parent_edges_Cons [of n ns] parent_edges_edge [OF hp] n by simp
      then show ?thesis by (auto simp: cm_get_append)
    qed
    finally show ?thesis .
  next
    case False
    have "set (cm_get (children_map_from cm (n # ns)) k)
        = set (cm_get cm k) \<union> {h. (k, h) \<in> parent_edges ns}"
      unfolding children_map_from_skip [OF False] by (rule Cons.IH)
    also have "\<dots> = set (cm_get cm k) \<union> {h. (k, h) \<in> parent_edges (n # ns)}"
    proof -
      have "parent_edges (n # ns) = parent_edges ns"
        using parent_edges_Cons [of n ns] parent_edges_skip [OF False] by simp
      then show ?thesis by simp
    qed
    finally show ?thesis .
  qed
qed

lemma cm_get_Nil: "cm_get [] k = []"
  by (simp add: cm_get_def)

lemma children_map_edges:
  "set (cm_get (children_map nodes) k) = {h. (k, h) \<in> parent_edges nodes}"
  by (simp add: children_map_def children_map_from_edges cm_get_Nil)

lemma descend_empty: "descend cm [] A = A"
  by (subst descend.simps) simp

lemma descend_seen:
  "stack \<noteq> [] \<Longrightarrow> last stack \<in> A \<Longrightarrow> descend cm stack A = descend cm (butlast stack) A"
  by (subst descend.simps) (simp add: Let_def)

lemma descend_new:
  "stack \<noteq> [] \<Longrightarrow> last stack \<notin> A \<Longrightarrow>
     descend cm stack A = descend cm (butlast stack @ cm_get cm (last stack)) (insert (last stack) A)"
  by (subst descend.simps) (simp add: Let_def)

lemma set_stack: "stack \<noteq> [] \<Longrightarrow> set stack = insert (last stack) (set (butlast stack))"
proof -
  assume "stack \<noteq> []"
  then have "stack = butlast stack @ [last stack]" by simp
  then have "set stack = set (butlast stack @ [last stack])" by simp
  then show ?thesis by simp
qed

lemma descend_extends: "A \<union> set stack \<subseteq> descend cm stack A"
proof (induction cm stack A rule: descend.induct)
  case (1 cm stack A)
  show ?case
  proof (cases "stack = []")
    case True
    then show ?thesis by (simp add: descend_empty)
  next
    case ne: False
    show ?thesis
    proof (cases "last stack \<in> A")
      case True
      from "1.IH"(1) [OF ne refl refl True] True ne show ?thesis
        by (auto simp: descend_seen set_stack [OF ne])
    next
      case False
      from "1.IH"(2) [OF ne refl refl False] False ne show ?thesis
        by (auto simp: descend_new set_stack [OF ne])
    qed
  qed
qed

lemma descend_sound:
  "descend cm stack A \<subseteq> A \<union> {(p, h). h \<in> set (cm_get cm p)}\<^sup>* `` set stack"
proof (induction cm stack A rule: descend.induct)
  case (1 cm stack A)
  let ?E = "{(p, h). h \<in> set (cm_get cm p)}"
  show ?case
  proof (cases "stack = []")
    case True
    then show ?thesis by (simp add: descend_empty)
  next
    case ne: False
    show ?thesis
    proof (cases "last stack \<in> A")
      case True
      have "?E\<^sup>* `` set (butlast stack) \<subseteq> ?E\<^sup>* `` set stack"
        by (rule Image_mono) (auto simp: set_stack [OF ne])
      with "1.IH"(1) [OF ne refl refl True] show ?thesis
        by (auto simp: descend_seen [OF ne True])
    next
      case False
      define R where "R = ?E\<^sup>* `` set stack"
      have "set (cm_get cm (last stack)) \<subseteq> ?E `` {last stack}" by auto
      moreover have l: "last stack \<in> R"
        using ne by (auto simp: R_def)
      ultimately have "set (cm_get cm (last stack)) \<subseteq> R"
        unfolding R_def using ne
        by (meson Image_singleton_iff last_in_set rev_ImageI rtrancl.rtrancl_into_rtrancl
            rtrancl.rtrancl_refl subsetD subsetI)
      then have a: "?E\<^sup>* `` set (cm_get cm (last stack)) \<subseteq> R"
        unfolding R_def by (auto intro: rtrancl_trans)
      have b: "?E\<^sup>* `` set (butlast stack) \<subseteq> R"
        unfolding R_def by (rule Image_mono) (auto simp: set_stack [OF ne])
      have "descend cm stack A
          \<subseteq> insert (last stack) A \<union>
             ?E\<^sup>* `` (set (butlast stack) \<union> set (cm_get cm (last stack)))"
        using "1.IH"(2) [OF ne refl refl False] by (simp add: descend_new [OF ne False])
      also have "\<dots> \<subseteq> A \<union> R"
        using a b l by (simp add: Image_Un) blast
      finally show ?thesis by (simp add: R_def)
    qed
  qed
qed

lemma descend_closed:
  "\<forall>x\<in>A. set (cm_get cm x) \<subseteq> A \<union> set stack \<Longrightarrow>
     \<forall>x\<in>descend cm stack A. set (cm_get cm x) \<subseteq> descend cm stack A"
proof (induction cm stack A rule: descend.induct)
  case (1 cm stack A)
  show ?case
  proof (cases "stack = []")
    case True
    with "1.prems" show ?thesis by (simp add: descend_empty)
  next
    case ne: False
    show ?thesis
    proof (cases "last stack \<in> A")
      case True
      have "\<forall>x\<in>A. set (cm_get cm x) \<subseteq> A \<union> set (butlast stack)"
        using "1.prems" True by (auto simp: set_stack [OF ne])
      from "1.IH"(1) [OF ne refl refl True this] show ?thesis
        by (simp add: descend_seen [OF ne True])
    next
      case False
      have "\<forall>x\<in>insert (last stack) A. set (cm_get cm x)
          \<subseteq> insert (last stack) A \<union> set (butlast stack @ cm_get cm (last stack))"
        using "1.prems" by (auto simp: set_stack [OF ne])
      from "1.IH"(2) [OF ne refl refl False this] show ?thesis
        by (simp add: descend_new [OF ne False])
    qed
  qed
qed

lemma descend_reachable:
  "descend cm [t] {} = {(p, h). h \<in> set (cm_get cm p)}\<^sup>* `` {t}"
proof
  show "descend cm [t] {} \<subseteq> {(p, h). h \<in> set (cm_get cm p)}\<^sup>* `` {t}"
    using descend_sound [of cm "[t]" "{}"] by simp
next
  let ?S = "descend cm [t] {}"
  have t: "t \<in> ?S" using descend_extends [of "{}" "[t]" cm] by simp
  have closed: "\<forall>x\<in>?S. set (cm_get cm x) \<subseteq> ?S"
    by (rule descend_closed) simp
  have "x \<in> ?S" if "(t, x) \<in> {(p, h). h \<in> set (cm_get cm p)}\<^sup>*" for x
    using that
  proof (induction rule: rtrancl_induct)
    case base
    show ?case by (rule t)
  next
    case (step y z)
    with closed show ?case by auto
  qed
  then show "{(p, h). h \<in> set (cm_get cm p)}\<^sup>* `` {t} \<subseteq> ?S" by auto
qed

text \<open>
  C10. The walk is a total function (its termination is proved with its definition,
  for every listing, cyclic or not), and from the target id it returns exactly the
  ids reachable from it along the parent-to-child edges of the listing.
\<close>

theorem descend_descendants:
  "descend (children_map nodes) [t] {} = (parent_edges nodes)\<^sup>* `` {t}
   \<and> (target_subfolder C = Some t \<and> t \<noteq> [] \<and> by_h C (JStr t) = Some d \<longrightarrow>
        allowed_set C nodes = Some ((parent_edges nodes)\<^sup>* `` {t}))"
proof -
  have "{(p, h). h \<in> set (cm_get (children_map nodes) p)} = parent_edges nodes"
    by (auto simp: children_map_edges)
  then have "descend (children_map nodes) [t] {} = (parent_edges nodes)\<^sup>* `` {t}"
    using descend_reachable [of "children_map nodes" t] by simp
  then show ?thesis by (simp add: allowed_set_def)
qed

theorem descend_descendants_witness:
  "(parent_edges [folder_node ''AAAAAAAA'' (Some ''BBBBBBBB''),
                  folder_node ''BBBBBBBB'' (Some ''AAAAAAAA''),
                  file_node ''FFFFFFFF'' ''BBBBBBBB''])\<^sup>* `` {''AAAAAAAA''}
     = {''AAAAAAAA'', ''BBBBBBBB'', ''FFFFFFFF''}"
proof -
  let ?nodes = "[folder_node ''AAAAAAAA'' (Some ''BBBBBBBB''),
                  folder_node ''BBBBBBBB'' (Some ''AAAAAAAA''),
                  file_node ''FFFFFFFF'' ''BBBBBBBB'']"
  have cm: "children_map ?nodes
      = [(''BBBBBBBB'', [''AAAAAAAA'', ''FFFFFFFF'']), (''AAAAAAAA'', [''BBBBBBBB''])]"
    by (simp add: children_map_def folder_node_def file_node_def dict_get_def)
  have "descend (children_map ?nodes) [''AAAAAAAA''] {}
      = {''AAAAAAAA'', ''BBBBBBBB'', ''FFFFFFFF''}"
    unfolding cm
    apply (subst descend_new; simp add: cm_get_def)
    apply (subst descend_new; simp add: cm_get_def)
    apply (subst descend_new; simp add: cm_get_def)
    apply (subst descend_seen; simp add: cm_get_def)
    apply (auto simp: descend_empty)
    done
  with descend_descendants [of ?nodes "''AAAAAAAA''"] show ?thesis by simp
qed

subsection \<open>Paths in the synthetic forest\<close>

lemma split_on_plain: "c \<notin> set s \<Longrightarrow> split_on c s = [s]"
  by (induction s) auto

lemma plain_segment_parts:
  assumes "plain_segment s"
  shows "anchor_of s = None" and "segments s = [s]"
proof -
  from assms have ne: "s \<noteq> []" and nd: "s \<noteq> ''.''" and ns: "CHR ''/'' \<notin> set s"
    by (simp_all add: plain_segment_def)
  from ne ns have "takeWhile (\<lambda>c. c = CHR ''/'') s = []"
    by (cases s) auto
  then show "anchor_of s = None" by (simp add: anchor_of_def)
  from ne nd ns show "segments s = [s]"
    by (simp add: segments_def split_on_plain)
qed

lemma pure_parts_from_plain:
  "\<forall>s\<in>set xs. plain_segment s \<Longrightarrow> pure_parts_from acc xs = acc @ xs"
  by (induction xs arbitrary: acc) (simp_all add: plain_segment_parts)

lemma pure_parts_plain: "\<forall>s\<in>set xs. plain_segment s \<Longrightarrow> pure_parts xs = xs"
  by (simp add: pure_parts_def pure_parts_from_plain)

lemma forest_index:
  "index_nodes (forest r a b f) Map.empty = Inr (forest_index r a b f)"
  by (simp add: forest_def folder_node_def file_node_def dict_get_def forest_index_def)

lemma forest_full_path:
  assumes d: "distinct [r, a, b, f]"
    and n: "nr \<noteq> []" "na \<noteq> []" "nb \<noteq> []"
  shows "full_path_loop
           \<lparr> by_h = forest_index r a b f,
             node_names = forest_names r a b f nr na nb nf,
             target_subfolder = None \<rparr>
           (Some [(''h'', JStr f), (''p'', JStr b), (''t'', JInt 0)]) []
         = Some (Inr [nb, na, nr])"
  using d n
  apply (subst full_path_loop.simps)
  apply (simp add: dict_get_def names_get_def is_target_def forest_names_def forest_index_def)
  apply (subst full_path_loop.simps)
  apply (simp add: dict_get_def names_get_def is_target_def forest_names_def forest_index_def)
  apply (subst full_path_loop.simps)
  apply (simp add: dict_get_def names_get_def is_target_def forest_names_def forest_index_def)
  apply (subst full_path_loop.simps)
  apply (simp add: dict_get_def names_get_def is_target_def forest_names_def forest_index_def)
  done

lemma forest_full_path_target:
  assumes d: "distinct [r, a, b, f]"
    and n: "nb \<noteq> []" "b \<noteq> []"
  shows "full_path_loop
           \<lparr> by_h = forest_index r a b f,
             node_names = forest_names r a b f nr na nb nf,
             target_subfolder = Some b \<rparr>
           (Some [(''h'', JStr f), (''p'', JStr b), (''t'', JInt 0)]) []
         = Some (Inr [nb])"
  using d n
  apply (subst full_path_loop.simps)
  apply (simp add: dict_get_def names_get_def is_target_def forest_names_def forest_index_def)
  done

lemma forest_index_file:
  "distinct [r, a, b, f] \<Longrightarrow>
     forest_index r a b f (JStr f) = Some [(''h'', JStr f), (''p'', JStr b), (''t'', JInt 0)]"
  by (simp add: forest_index_def)

lemma forest_index_target:
  "distinct [r, a, b, f] \<Longrightarrow> forest_index r a b f (JStr b) \<noteq> None"
  by (simp add: forest_index_def)

lemma forest_rel_path:
  assumes d: "distinct [r, a, b, f]"
    and n: "plain_segment nr" "plain_segment na" "plain_segment nb" "plain_segment nf"
  shows "rel_path \<lparr> by_h = forest_index r a b f,
                    node_names = forest_names r a b f nr na nb nf,
                    target_subfolder = None \<rparr> f
         = Some (Inr [nr, na, nb, nf])"
proof -
  from n have ne: "nr \<noteq> []" "na \<noteq> []" "nb \<noteq> []"
    by (simp_all add: plain_segment_def)
  have nm: "node_name (forest_names r a b f nr na nb nf) f = nf"
    by (simp add: node_name_def forest_names_def)
  have p1: "pure_parts [nr, na, nb] = [nr, na, nb]"
    using n by (intro pure_parts_plain) simp
  have p2: "pure_parts [nr, na, nb, nf] = [nr, na, nb, nf]"
    using n by (intro pure_parts_plain) simp
  show ?thesis
    by (simp add: rel_path_def full_path_def forest_index_file [OF d]
        forest_full_path [OF d ne] nm p1 p2 target_listed_def)
qed

lemma forest_rel_path_target:
  assumes d: "distinct [r, a, b, f]" and b: "b \<noteq> []"
    and n: "plain_segment nb" "plain_segment nf"
  shows "rel_path \<lparr> by_h = forest_index r a b f,
                    node_names = forest_names r a b f nr na nb nf,
                    target_subfolder = Some b \<rparr> f
         = Some (Inr [nb, nf])"
proof -
  from n have ne: "nb \<noteq> []"
    by (simp_all add: plain_segment_def)
  have nm: "node_name (forest_names r a b f nr na nb nf) f = nf"
    by (simp add: node_name_def forest_names_def)
  have tn: "names_get (forest_names r a b f nr na nb nf) (JStr b) = nb"
    using d by (simp add: names_get_def forest_names_def)
  have p1: "pure_parts [nb] = [nb]"
    using n by (intro pure_parts_plain) simp
  have p2: "pure_parts [nb, nf] = [nb, nf]"
    using n by (intro pure_parts_plain) simp
  show ?thesis
    using b ne forest_index_target [OF d]
    by (simp add: rel_path_def full_path_def forest_index_file [OF d]
        forest_full_path_target [OF d ne b] nm tn p1 p2 target_listed_def)
qed

lemma forest_resolve:
  assumes "distinct [r, a, b, f]"
    and "plain_segment nr" "plain_segment na" "plain_segment nb" "plain_segment nf"
  shows "resolve (forest_names r a b f nr na nb nf) None (forest r a b f) f
         = Returns [nr, na, nb, nf]"
  by (simp add: resolve_def forest_index forest_rel_path [OF assms])

lemma forest_resolve_target:
  assumes "distinct [r, a, b, f]" and "b \<noteq> []"
    and "plain_segment nb" "plain_segment nf"
  shows "resolve (forest_names r a b f nr na nb nf) (Some b) (forest r a b f) f
         = Returns [nb, nf]"
  by (simp add: resolve_def forest_index forest_rel_path_target [OF assms])

lemma forest_children:
  "distinct [r, a, b, f] \<Longrightarrow>
     children_map (forest r a b f) = [(r, [a]), (a, [b]), (b, [f])]"
  by (auto simp: children_map_def forest_def folder_node_def file_node_def dict_get_def)

lemma forest_descend:
  assumes d: "distinct [r, a, b, f]"
  shows "descend [(r, [a]), (a, [b]), (b, [f])] [b] {} = {b, f}"
proof -
  have g1: "cm_get [(r, [a]), (a, [b]), (b, [f])] b = [f]"
    using d by (auto simp: cm_get_def)
  have g2: "cm_get [(r, [a]), (a, [b]), (b, [f])] f = []"
    using d by (auto simp: cm_get_def)
  have "descend [(r, [a]), (a, [b]), (b, [f])] [b] {} = descend [(r, [a]), (a, [b]), (b, [f])] [f] {b}"
    by (subst descend_new) (simp_all add: g1)
  also have "\<dots> = descend [(r, [a]), (a, [b]), (b, [f])] [] {f, b}"
    using d by (subst descend_new) (auto simp: g2)
  also have "\<dots> = {b, f}"
    by (auto simp: descend_empty)
  finally show ?thesis .
qed

lemma length_group4: "length (group4 xs) = (length xs + 3) div 4"
proof (induction xs rule: group4.induct)
  case 1
  then show ?case by simp
next
  case (2 x xs)
  have "Suc ((length xs - 3 + 3) div 4) = (4 + length xs) div 4" by arith
  with 2 show ?case by simp
qed

lemma derive_node_key:
  assumes "length kb = 16"
  shows "\<exists>key iv. derive_key_iv_from_k (bytes_to_a32 kb) = Inr (key, iv)"
proof -
  from assms have "length (bytes_to_a32 kb) = 4"
    by (simp add: bytes_to_a32_def length_group4)
  then show ?thesis by (simp add: derive_key_iv_from_k_def)
qed

lemma forest_allowed:
  assumes d: "distinct [r, a, b, f]" and b: "b \<noteq> []"
  shows "allowed_set \<lparr> by_h = forest_index r a b f, node_names = nms,
                       target_subfolder = Some b \<rparr> (forest r a b f) = Some {b, f}"
  using b forest_index_target [OF d]
  by (simp add: allowed_set_def forest_children [OF d] forest_descend [OF d])

lemma forest_select:
  assumes d: "distinct [r, a, b, f]" and b: "b \<noteq> []"
    and n: "plain_segment nb" "plain_segment nf"
    and k: "nkb [(''h'', JStr f), (''p'', JStr b), (''t'', JInt 0)] = Some kb" "length kb = 16"
    and s: "fetch f = Stored"
  shows "select_files nkb (forest_names r a b f nr na nb nf) (Some b) fetch (forest r a b f)
         = Returns [[nb, nf]]"
proof -
  let ?C = "\<lparr> by_h = forest_index r a b f,
                    node_names = forest_names r a b f nr na nb nf,
                    target_subfolder = Some b \<rparr>"
  have al: "allowed_set ?C (forest r a b f) = Some {b, f}"
    by (rule forest_allowed [OF d b])
  from derive_node_key [OF k(2)] obtain key iv
    where dk: "derive_key_iv_from_k (bytes_to_a32 kb) = Inr (key, iv)" by blast
  from k(2) have kne: "kb \<noteq> []" by auto
  have fo: "download_step nkb ?C (Some {b, f}) fetch (folder_node h p) = Skip" for h p
    by (simp add: download_step_def folder_node_def dict_get_def split: option.splits)
  have fi: "download_step nkb ?C (Some {b, f}) fetch (file_node f b) = Keep [nb, nf]"
    using k(1) kne s
    by (simp add: download_step_def file_node_def dict_get_def dk
        forest_rel_path_target [OF d b n])
  show ?thesis
    by (simp add: select_files_def forest_index al) (simp add: forest_def fo fi)
qed

text \<open>
  C3. With every name decrypted, the walk also collects the name of the root folder,
  which is in the listing like any other folder: the path is not \<open>A/B/f.txt\<close>.
\<close>

theorem forest_path_not_rootless:
  "resolve (forest_names ''ROOT0000'' ''AAAAAAAA'' ''BBBBBBBB'' ''FFFFFFFF''
              ''root'' ''A'' ''B'' ''f.txt'') None
     (forest ''ROOT0000'' ''AAAAAAAA'' ''BBBBBBBB'' ''FFFFFFFF'') ''FFFFFFFF''
   \<noteq> Returns [''A'', ''B'', ''f.txt'']"
  using forest_resolve [of "''ROOT0000''" "''AAAAAAAA''" "''BBBBBBBB''" "''FFFFFFFF''"
      "''root''" "''A''" "''B''" "''f.txt''"]
  by (simp add: plain_segment_def)

text \<open>
  C3, amended. For the forest \<open>r \<rightarrow> a \<rightarrow> b \<rightarrow> f\<close> with distinct ids, every name
  decrypted (each a plain path segment) and no target subfolder, the path resolved for
  the file is the root folder's name, then the names of \<open>a\<close> and \<open>b\<close>, then the file's
  own name.
\<close>

theorem forest_path_from_root:
  assumes "distinct [r, a, b, f]"
    and "plain_segment nr" "plain_segment na" "plain_segment nb" "plain_segment nf"
  shows "resolve (forest_names r a b f nr na nb nf) None (forest r a b f) f
         = Returns [nr, na, nb, nf]"
  using assms by (rule forest_resolve)

theorem forest_path_from_root_witness:
  "resolve (forest_names ''ROOT0000'' ''AAAAAAAA'' ''BBBBBBBB'' ''FFFFFFFF''
              ''root'' ''A'' ''B'' ''f.txt'') None
     (forest ''ROOT0000'' ''AAAAAAAA'' ''BBBBBBBB'' ''FFFFFFFF'') ''FFFFFFFF''
   = Returns [''root'', ''A'', ''B'', ''f.txt'']"
  using forest_path_from_root [of "''ROOT0000''" "''AAAAAAAA''" "''BBBBBBBB''" "''FFFFFFFF''"
      "''root''" "''A''" "''B''" "''f.txt''"]
  by (simp add: plain_segment_def)

text \<open>
  C4. With the target subfolder \<open>b\<close> the walk stops at \<open>b\<close> after collecting its
  name, and the final trim keeps the path from that name on: the path of the file is
  \<open>B/f.txt\<close>, not \<open>f.txt\<close>.
\<close>

theorem forest_path_keeps_target:
  "resolve (forest_names ''ROOT0000'' ''AAAAAAAA'' ''BBBBBBBB'' ''FFFFFFFF''
              ''root'' ''A'' ''B'' ''f.txt'') (Some ''BBBBBBBB'')
     (forest ''ROOT0000'' ''AAAAAAAA'' ''BBBBBBBB'' ''FFFFFFFF'') ''FFFFFFFF''
   \<noteq> Returns [''f.txt'']"
  using forest_resolve_target [of "''ROOT0000''" "''AAAAAAAA''" "''BBBBBBBB''" "''FFFFFFFF''"
      "''B''" "''f.txt''" "''root''" "''A''"]
  by (simp add: plain_segment_def)

text \<open>
  C4, amended. For the forest \<open>r \<rightarrow> a \<rightarrow> b \<rightarrow> f\<close> with distinct ids and the target
  subfolder \<open>b\<close>: the walk over the children map marks \<open>b\<close> and its descendant \<open>f\<close>
  and nothing else; with the file's key decrypted and its transfer succeeding, the
  files stored are exactly the one file below \<open>b\<close>; and its path starts at the name of
  \<open>b\<close>: the name of \<open>b\<close>, then the file's own name.
\<close>

theorem forest_subfolder_scope:
  assumes "distinct [r, a, b, f]" and "b \<noteq> []"
    and "plain_segment nb" "plain_segment nf"
    and "nkb [(''h'', JStr f), (''p'', JStr b), (''t'', JInt 0)] = Some kb" "length kb = 16"
    and "fetch f = Stored"
  shows "allowed_set \<lparr> by_h = forest_index r a b f,
                       node_names = forest_names r a b f nr na nb nf,
                       target_subfolder = Some b \<rparr> (forest r a b f) = Some {b, f}
         \<and> select_files nkb (forest_names r a b f nr na nb nf) (Some b) fetch (forest r a b f)
             = Returns [[nb, nf]]
         \<and> resolve (forest_names r a b f nr na nb nf) (Some b) (forest r a b f) f
             = Returns [nb, nf]"
  using forest_allowed [OF assms(1,2)] forest_select [where nkb = nkb and fetch = fetch, OF assms]
    forest_resolve_target [OF assms(1-4)]
  by simp

theorem forest_subfolder_scope_witness:
  "select_files (\<lambda>d. Some (replicate 16 0))
       (forest_names ''ROOT0000'' ''AAAAAAAA'' ''BBBBBBBB'' ''FFFFFFFF''
          ''root'' ''A'' ''B'' ''f.txt'')
       (Some ''BBBBBBBB'') (\<lambda>h. Stored)
       (forest ''ROOT0000'' ''AAAAAAAA'' ''BBBBBBBB'' ''FFFFFFFF'')
     = Returns [[''B'', ''f.txt'']]
   \<and> resolve (forest_names ''ROOT0000'' ''AAAAAAAA'' ''BBBBBBBB'' ''FFFFFFFF''
                ''root'' ''A'' ''B'' ''f.txt'') (Some ''BBBBBBBB'')
       (forest ''ROOT0000'' ''AAAAAAAA'' ''BBBBBBBB'' ''FFFFFFFF'') ''FFFFFFFF''
     = Returns [''B'', ''f.txt'']"
  using forest_subfolder_scope [of "''ROOT0000''" "''AAAAAAAA''" "''BBBBBBBB''" "''FFFFFFFF''"
      "''B''" "''f.txt''" "\<lambda>d. Some (replicate 16 0)" "replicate 16 0" "\<lambda>h. Stored"
      "''root''" "''A''"]
  by (simp add: plain_segment_def)

subsection \<open>Nodes whose key or attributes do not decrypt\<close>

lemma name_step_skip:
  assumes "\<not> usable_key (nkb d)"
  shows "name_step L nkb (JObj d) nms = Inr nms"
proof (cases "nkb d")
  case None
  then show ?thesis by (simp add: name_step_def split: json.split)
next
  case (Some kb)
  with assms have "kb = []" by (simp add: usable_key_def)
  with Some show ?thesis by (simp add: name_step_def split: json.split)
qed

lemma download_step_skip:
  assumes "\<not> usable_key (nkb d)"
  shows "download_step nkb C allowed fetch (JObj d) = Skip"
proof (cases "nkb d")
  case None
  then show ?thesis by (simp add: download_step_def split: json.split)
next
  case (Some kb)
  with assms have "kb = []" by (simp add: usable_key_def)
  with Some show ?thesis by (simp add: download_step_def split: json.split)
qed

lemma name_nodes_append:
  "name_nodes L nkb (xs @ ys) nms =
     (case name_nodes L nkb xs nms of Inl e \<Rightarrow> Inl e | Inr nms' \<Rightarrow> name_nodes L nkb ys nms')"
  by (induction xs arbitrary: nms) (simp_all split: sum.split)

lemma download_nodes_append:
  "download_nodes nkb C allowed fetch (xs @ ys) rs =
     (case download_nodes nkb C allowed fetch xs rs of
        Returns rs' \<Rightarrow> download_nodes nkb C allowed fetch ys rs'
      | Raises e \<Rightarrow> Raises e
      | Diverges \<Rightarrow> Diverges)"
  by (induction xs arbitrary: rs) (simp_all split: step.split)

lemma name_nodes_skip:
  "\<not> usable_key (nkb d) \<Longrightarrow>
     name_nodes L nkb (xs @ JObj d # ys) nms = name_nodes L nkb (xs @ ys) nms"
  by (simp add: name_nodes_append name_step_skip split: sum.split)

lemma download_nodes_skip:
  "\<not> usable_key (nkb d) \<Longrightarrow>
     download_nodes nkb C allowed fetch (xs @ JObj d # ys) rs =
       download_nodes nkb C allowed fetch (xs @ ys) rs"
  by (simp add: download_nodes_append download_step_skip split: outcome.split)

lemma failed_key_None:
  assumes "(\<forall>k. dict_get d ''k'' \<noteq> JStr k)
      \<or> (\<exists>k e. dict_get d ''k'' = JStr k
            \<and> mega_b64_decode L (last (split_on CHR '':'' k)) = Inl e)
      \<or> (\<exists>k enc e. dict_get d ''k'' = JStr k
            \<and> mega_b64_decode L (last (split_on CHR '':'' k)) = Inr enc
            \<and> aes_ecb_decrypt L sk enc = Inl e)"
  shows "node_key_bytes L sk d = None"
  using assms
proof (elim disjE exE conjE)
  assume "\<forall>k. dict_get d ''k'' \<noteq> JStr k"
  then show ?thesis
    by (cases "dict_get d ''k''") (simp_all add: node_key_bytes_def)
qed (simp_all add: node_key_bytes_def)

text \<open>
  C6. A node whose key blob does not decrypt (no key string, a string that does not
  decode, or a cipher failure) gets \<open>None\<close> from \<open>node_key_bytes\<close>; the loop that
  decrypts the names and the download loop both pass over it and go on with the
  nodes after it exactly as if it were not in the list, so \<open>download_folder\<close> uses
  it for the index and the children map only.
\<close>

theorem failed_key_isolated:
  assumes "(\<forall>k. dict_get d ''k'' \<noteq> JStr k)
      \<or> (\<exists>k e. dict_get d ''k'' = JStr k
            \<and> mega_b64_decode L (last (split_on CHR '':'' k)) = Inl e)
      \<or> (\<exists>k enc e. dict_get d ''k'' = JStr k
            \<and> mega_b64_decode L (last (split_on CHR '':'' k)) = Inr enc
            \<and> aes_ecb_decrypt L sk enc = Inl e)"
  shows "node_key_bytes L sk d = None
    \<and> name_nodes L (node_key_bytes L sk) (xs @ JObj d # ys) nms
        = name_nodes L (node_key_bytes L sk) (xs @ ys) nms
    \<and> download_nodes (node_key_bytes L sk) C allowed fetch (xs @ JObj d # ys) rs
        = download_nodes (node_key_bytes L sk) C allowed fetch (xs @ ys) rs
    \<and> download_folder L sk tgt (xs @ JObj d # ys) fetch
        = (case index_nodes (xs @ JObj d # ys) Map.empty of
             Inl e \<Rightarrow> Raises e
           | Inr bh \<Rightarrow>
               (case name_nodes L (node_key_bytes L sk) (xs @ ys) Map.empty of
                  Inl e \<Rightarrow> Raises e
                | Inr nms' \<Rightarrow>
                    download_nodes (node_key_bytes L sk)
                      \<lparr> by_h = bh, node_names = nms', target_subfolder = tgt \<rparr>
                      (allowed_set \<lparr> by_h = bh, node_names = nms', target_subfolder = tgt \<rparr>
                         (xs @ JObj d # ys))
                      fetch (xs @ ys) []))"
proof -
  from failed_key_None [OF assms] have none: "node_key_bytes L sk d = None" .
  then have nu: "\<not> usable_key (node_key_bytes L sk d)" by (simp add: usable_key_def)
  show ?thesis
    by (simp add: none download_folder_def
        name_nodes_skip [where nkb = "node_key_bytes L sk", OF nu]
        download_nodes_skip [where nkb = "node_key_bytes L sk", OF nu]
        Let_def split: sum.split)
qed

lemma bytes_of_block_zero: "bytes_of_block 0 = replicate 16 0"
  by (simp add: bytes_of_block_def map_replicate_const)

lemma toy_b64_zero_block:
  "mega_b64_decode toy_lib ''AAAAAAAAAAAAAAAAAAAAAA'' = Inr (replicate 16 0)"
  by (simp add: mega_b64_decode_def toy_lib_def b64_quad_def b64_index_def replicate_two z16)

lemma toy_ecb_zero_block:
  "aes_ecb_decrypt toy_lib (replicate 16 0) (replicate 16 0) = Inr (replicate 16 0)"
proof -
  have b: "blocks16 (replicate 16 (0::byte)) = [replicate 16 0]"
    by (simp add: z16)
  show ?thesis
    by (simp add: aes_ecb_decrypt_def aes_key_ok_def b toy_lib_def toy_block_def
        block_of_zeros bytes_of_block_zero)
qed

lemma toy_node_key:
  "dict_get d ''k'' = JStr ''ROOT0000:AAAAAAAAAAAAAAAAAAAAAA'' \<Longrightarrow>
     node_key_bytes toy_lib (replicate 16 0) d = Some (replicate 16 0)"
  by (simp add: node_key_bytes_def toy_b64_zero_block toy_ecb_zero_block slice_def)

theorem failed_key_isolated_witness:
  "node_key_bytes toy_lib (replicate 16 0)
       [(''h'', JStr ''BADKEY00''), (''p'', JStr ''ROOT0000''), (''t'', JInt 0)] = None
   \<and> download_folder toy_lib (replicate 16 0) None
       [JObj [(''h'', JStr ''BADKEY00''), (''p'', JStr ''ROOT0000''), (''t'', JInt 0)],
        JObj [(''h'', JStr ''GOODFILE''), (''t'', JInt 0),
              (''k'', JStr ''ROOT0000:AAAAAAAAAAAAAAAAAAAAAA'')]]
       (\<lambda>h. Stored)
     = Returns [[''GOODFILE'']]"
proof -
  let ?bad = "[(''h'', JStr ''BADKEY00''), (''p'', JStr ''ROOT0000''), (''t'', JInt 0)]"
  let ?good = "[(''h'', JStr ''GOODFILE''), (''t'', JInt 0),
              (''k'', JStr ''ROOT0000:AAAAAAAAAAAAAAAAAAAAAA'')]"
  let ?nkb = "node_key_bytes toy_lib (replicate 16 0)"
  let ?bh = "[JStr ''BADKEY00'' \<mapsto> ?bad, JStr ''GOODFILE'' \<mapsto> ?good]"
  let ?C = "\<lparr> by_h = ?bh, node_names = Map.empty, target_subfolder = None \<rparr>"
  have cause: "\<forall>k. dict_get ?bad ''k'' \<noteq> JStr k"
    by (simp add: dict_get_def)
  have idx: "index_nodes [JObj ?bad, JObj ?good] Map.empty = Inr ?bh"
    by (simp add: dict_get_def)
  have gk: "?nkb ?good = Some (replicate 16 0)"
    by (rule toy_node_key) (simp add: dict_get_def)
  have nm: "name_nodes toy_lib ?nkb [JObj ?good] Map.empty = Inr Map.empty"
    by (simp add: name_step_def dict_get_def gk)
  have al: "allowed_set ?C [JObj ?bad, JObj ?good] = None"
    by (simp add: allowed_set_def)
  from derive_node_key [of "replicate 16 0"] obtain key iv
    where dk: "derive_key_iv_from_k (bytes_to_a32 (replicate 16 0)) = Inr (key, iv)" by auto
  have fp: "full_path_loop ?C (Some ?good) [] = Some (Inr [])"
    by (subst full_path_loop.simps) (simp add: dict_get_def)
  have pp: "pure_parts [''GOODFILE''] = [''GOODFILE'']"
    by (intro pure_parts_plain) (simp add: plain_segment_def)
  have p0: "pure_parts [] = []"
    by (simp add: pure_parts_def)
  have rp: "rel_path ?C ''GOODFILE'' = Some (Inr [''GOODFILE''])"
    by (simp add: rel_path_def full_path_def fp p0 pp node_name_def target_listed_def)
  have st: "download_step ?nkb ?C None (\<lambda>h. Stored) (JObj ?good) = Keep [''GOODFILE'']"
    by (simp add: download_step_def dict_get_def gk dk rp)
  have dn: "download_nodes ?nkb ?C None (\<lambda>h. Stored) [JObj ?good] [] = Returns [[''GOODFILE'']]"
    by (simp add: st)
  note T = failed_key_isolated [of ?bad toy_lib "replicate 16 0" "[]" "[JObj ?good]"
      Map.empty ?C None "\<lambda>h. Stored" "[]" None, OF disjI1 [OF cause], unfolded append_Nil]
  from T have n: "?nkb ?bad = None" by (rule conjunct1)
  note df = T [THEN conjunct2, THEN conjunct2, THEN conjunct2]
  have "download_folder toy_lib (replicate 16 0) None [JObj ?bad, JObj ?good] (\<lambda>h. Stored)
      = Returns [[''GOODFILE'']]"
    unfolding df idx sum.case nm al dn ..
  with n show ?thesis by (rule conjI)
qed

subsection \<open>The name of a node without usable attributes\<close>









end
